theory Spec2Isabelle
  imports Complex_Main
begin

unbundle bit_operations_syntax

section \<open>ARPopulate (arpopulate.py): a shallow embedding\<close>

text \<open>
  The script builds a table of spoofed IP addresses with MAC addresses drawn at random and
  replays it as ARP frames against the hosts of the target networks. Python exceptions are
  values of the type \<open>error\<close>; a function that can raise returns \<open>error + 'a\<close>
  with \<open>Inl\<close> for the exception. Python integers are \<open>int\<close>; sizes, bytes and
  addresses, which never go negative, are \<open>nat\<close>.
\<close>

datatype error =
  TypeError | ValueError | AttributeError | OverflowError | AddressValueError | AssertionError

subsection \<open>Python helpers: hexadecimal text, bytes, split and join\<close>

text \<open>The character class \<^verbatim>\<open>[0-9a-fA-F]\<close> and the value of one hexadecimal digit.\<close>

definition is_hex :: "char \<Rightarrow> bool" where
  "is_hex c = (let n = (of_char c :: nat) in
     (48 \<le> n \<and> n \<le> 57) \<or> (97 \<le> n \<and> n \<le> 102) \<or> (65 \<le> n \<and> n \<le> 70))"

definition hex_val :: "char \<Rightarrow> nat" where
  "hex_val c = (let n = (of_char c :: nat) in
     if 48 \<le> n \<and> n \<le> 57 then n - 48 else if 97 \<le> n \<and> n \<le> 102 then n - 87 else n - 55)"

definition hex_digit :: "nat \<Rightarrow> char" where
  "hex_digit d = ''0123456789abcdef'' ! d"

text \<open>
  \<^verbatim>\<open>int(part, 16)\<close> on the parts that \<^verbatim>\<open>split\<close> delivers, which hold
  hexadecimal digits only: the empty string raises ValueError.
\<close>

definition int16 :: "string \<Rightarrow> error + nat" where
  "int16 part = (if part = [] \<or> \<not> list_all is_hex part then Inl ValueError
     else Inr (foldl (\<lambda>acc c. acc * 16 + hex_val c) 0 part))"

text \<open>\<^verbatim>\<open>format(part, "x")\<close> of a non-negative integer: lowercase, no padding.\<close>

fun format_x :: "nat \<Rightarrow> string" where
  "format_x n = (if n < 16 then [hex_digit n] else format_x (n div 16) @ [hex_digit (n mod 16)])"

declare format_x.simps [simp del]

text \<open>
  \<^verbatim>\<open>split(r"[^0-9a-fA-F]", s)\<close>: the text is cut at every character that is not a
  hexadecimal digit; \<open>cur\<close> is the part being read.
\<close>

fun re_split_acc :: "string \<Rightarrow> string \<Rightarrow> string list" where
  "re_split_acc cur [] = [cur]"
| "re_split_acc cur (c # cs) =
     (if is_hex c then re_split_acc (cur @ [c]) cs else cur # re_split_acc [] cs)"

definition re_split :: "string \<Rightarrow> string list" where
  "re_split s = re_split_acc [] s"

text \<open>\<^verbatim>\<open>sep.join(parts)\<close>.\<close>

fun join :: "string \<Rightarrow> string list \<Rightarrow> string" where
  "join sep [] = []"
| "join sep [p] = p"
| "join sep (p # q # ps) = p @ sep @ join sep (q # ps)"

text \<open>A list comprehension whose element expression can raise stops at the first exception.\<close>

fun collect :: "('e + 'a) list \<Rightarrow> 'e + 'a list" where
  "collect [] = Inr []"
| "collect (r # rs) =
     (case r of Inl e \<Rightarrow> Inl e
      | Inr v \<Rightarrow> (case collect rs of Inl e \<Rightarrow> Inl e | Inr vs \<Rightarrow> Inr (v # vs)))"

text \<open>
  \<^verbatim>\<open>int.from_bytes(values, byteorder="big", signed=False)\<close>: every value must be a
  byte (ValueError otherwise). \<^verbatim>\<open>n.to_bytes(length, byteorder="big", signed=False)\<close>
  raises OverflowError on a negative integer and on one that needs more bytes.
\<close>

definition from_bytes :: "nat list \<Rightarrow> error + int" where
  "from_bytes bs = (if list_all (\<lambda>b. b < 256) bs
     then Inr (int (foldl (\<lambda>acc b. acc * 256 + b) 0 bs)) else Inl ValueError)"

fun bytes_big :: "nat \<Rightarrow> nat \<Rightarrow> nat list" where
  "bytes_big 0 n = []"
| "bytes_big (Suc k) n = bytes_big k (n div 256) @ [n mod 256]"

definition to_bytes :: "nat \<Rightarrow> int \<Rightarrow> error + nat list" where
  "to_bytes len n = (if n < 0 \<or> 256 ^ len \<le> n then Inl OverflowError
     else Inr (bytes_big len (nat n)))"

subsection \<open>class MAC\<close>

text \<open>
  A MAC is a Python integer. \<open>MAC_parse\<close> is \<^verbatim>\<open>MAC.parse\<close>, \<open>MAC_str\<close> is
  \<^verbatim>\<open>MAC.__str__\<close>.
\<close>

type_synonym MAC = int

definition MAC_parse :: "string \<Rightarrow> error + MAC" where
  "MAC_parse mac = (case collect (map int16 (re_split mac)) of
     Inl e \<Rightarrow> Inl e | Inr parts \<Rightarrow> from_bytes parts)"

definition MAC_str :: "MAC \<Rightarrow> error + string" where
  "MAC_str self = (case to_bytes 6 self of
     Inl e \<Rightarrow> Inl e | Inr parts \<Rightarrow> Inr (join '':'' (map format_x parts)))"

subsection \<open>class MACRange\<close>

text \<open>
  The text given to the constructor is a Python \<^verbatim>\<open>str\<close>: the list of its code points.
  \<open>ascii\<close> is the \<^verbatim>\<open>str\<close> of a text of ASCII characters.
\<close>

type_synonym pystr = "nat list"

definition ascii :: "string \<Rightarrow> pystr" where
  "ascii s = map of_char s"

text \<open>
  The constructor searches the text with the regular expression
  \<^verbatim>\<open>^(?P<mac>(?:[0-9a-fA-F]{2}[:.-]){5}[0-9a-fA-F]{2})(/(?P<mask>\d+))?$\<close>.
  On a \<^verbatim>\<open>str\<close> the class \<^verbatim>\<open>\d\<close> holds every decimal digit of the Unicode
  database, and \<^verbatim>\<open>int\<close> reads every such digit with its value. Among the ASCII
  characters these are \<open>0\<close> to \<open>9\<close>; beyond them the database of the interpreter
  decides, which differs between versions and is the parameter \<open>uni\<close> here: the decimal
  value of a code point, \<open>None\<close> when it is no decimal digit.
\<close>

definition cp_is_hex :: "nat \<Rightarrow> bool" where
  "cp_is_hex n = ((48 \<le> n \<and> n \<le> 57) \<or> (97 \<le> n \<and> n \<le> 102) \<or> (65 \<le> n \<and> n \<le> 70))"

definition cp_is_sep :: "nat \<Rightarrow> bool" where
  "cp_is_sep n = (n = of_char CHR '':'' \<or> n = of_char CHR ''.'' \<or> n = of_char CHR ''-'')"

definition decimal :: "(nat \<Rightarrow> nat option) \<Rightarrow> nat \<Rightarrow> nat option" where
  "decimal uni n =
     (if n < 128 then (if 48 \<le> n \<and> n \<le> 57 then Some (n - 48) else None) else uni n)"

definition is_digit :: "(nat \<Rightarrow> nat option) \<Rightarrow> nat \<Rightarrow> bool" where
  "is_digit uni n = (decimal uni n \<noteq> None)"

text \<open>
  \<open>match_pairs n\<close> reads \<open>n\<close> groups of two hexadecimal digits and a separator and
  returns the rest; \<open>at_end\<close> is \<^verbatim>\<open>$\<close>, which holds at the end of the text and
  before a final newline; \<open>match_tail\<close> is the optional mask group followed by
  \<^verbatim>\<open>$\<close>. The greedy \<^verbatim>\<open>\d+\<close> takes every digit: with fewer, \<^verbatim>\<open>$\<close> would
  stand before a digit. \<open>re_search\<close> returns the groups \<open>mac\<close> and \<open>mask\<close> of the
  match (a group that took no part in the match is \<open>None\<close>), or \<open>None\<close> when the
  text does not match.
\<close>

fun match_pairs :: "nat \<Rightarrow> pystr \<Rightarrow> pystr option" where
  "match_pairs 0 s = Some s"
| "match_pairs (Suc n) (a # b # c # s) =
     (if cp_is_hex a \<and> cp_is_hex b \<and> cp_is_sep c then match_pairs n s else None)"
| "match_pairs (Suc n) s = None"

definition at_end :: "pystr \<Rightarrow> bool" where
  "at_end s = (s = [] \<or> s = [0x0A])"

definition match_tail :: "(nat \<Rightarrow> nat option) \<Rightarrow> pystr \<Rightarrow> pystr option option" where
  "match_tail uni r =
     (case r of
        [] \<Rightarrow> Some None
      | c # r' \<Rightarrow>
          if c = of_char CHR ''/'' \<and> takeWhile (is_digit uni) r' \<noteq> [] \<and>
             at_end (dropWhile (is_digit uni) r')
          then Some (Some (takeWhile (is_digit uni) r'))
          else if at_end r then Some None else None)"

definition re_search :: "(nat \<Rightarrow> nat option) \<Rightarrow> pystr \<Rightarrow> (pystr \<times> pystr option) option" where
  "re_search uni s =
     (case match_pairs 5 s of
        None \<Rightarrow> None
      | Some (a # b # r) \<Rightarrow>
          if cp_is_hex a \<and> cp_is_hex b
          then (case match_tail uni r of None \<Rightarrow> None | Some m \<Rightarrow> Some (take 17 s, m))
          else None
      | Some _ \<Rightarrow> None)"

text \<open>
  \<^verbatim>\<open>int(digits)\<close> on the decimal digits of the mask group. A text of more digits than
  the interpreter's limit for the conversion (\<^verbatim>\<open>sys.get_int_max_str_digits()\<close>, 4300
  unless configured otherwise) raises ValueError; leading zeros count.
\<close>

definition int_max_str_digits :: nat where
  "int_max_str_digits = 4300"

definition py_int :: "(nat \<Rightarrow> nat option) \<Rightarrow> pystr \<Rightarrow> error + nat" where
  "py_int uni ds =
     (if int_max_str_digits < length ds then Inl ValueError
      else Inr (foldl (\<lambda>acc c. acc * 10 + (case decimal uni c of None \<Rightarrow> 0 | Some d \<Rightarrow> d)) 0 ds))"

text \<open>
  The attributes \<^verbatim>\<open>mask\<close> and \<^verbatim>\<open>mac\<close> of a range are the fields
  \<open>range_mask\<close> and \<open>range_mac\<close> (\<open>mask\<close> is a constant of HOL).
  \<^verbatim>\<open>MACRange.__init__\<close>: \<^verbatim>\<open>matches.group\<close> on no match raises AttributeError,
  \<^verbatim>\<open>int(None)\<close> on a missing mask raises TypeError, and the shift
  \<^verbatim>\<open>1 << (48 - self.mask)\<close> raises ValueError when the count is negative. The group
  \<open>mac\<close> of a match holds hexadecimal digits and separators only, all ASCII: it is the
  text of these characters that \<^verbatim>\<open>MAC.parse\<close> gets.
\<close>

record MACRange =
  range_mask :: nat
  range_mac :: MAC

definition MACRange_init :: "(nat \<Rightarrow> nat option) \<Rightarrow> pystr \<Rightarrow> error + MACRange" where
  "MACRange_init uni mac =
     (case re_search uni mac of
        None \<Rightarrow> Inl AttributeError
      | Some (mac_group, mask_group) \<Rightarrow>
          (case mask_group of
             None \<Rightarrow> Inl TypeError
           | Some digits \<Rightarrow>
               (case py_int uni digits of
                  Inl e \<Rightarrow> Inl e
                | Inr mask_value \<Rightarrow>
                    (case MAC_parse (map char_of mac_group) of
                       Inl e \<Rightarrow> Inl e
                     | Inr m \<Rightarrow>
                         if 48 < mask_value then Inl ValueError
                         else Inr \<lparr>range_mask = mask_value,
                                range_mac = m AND NOT (push_bit (48 - mask_value) 1 - 1)\<rparr>))))"

text \<open>\<^verbatim>\<open>MACRange.__len__\<close>.\<close>

definition MACRange_len :: "MACRange \<Rightarrow> error + nat" where
  "MACRange_len self =
     (if 48 < range_mask self then Inl ValueError else Inr (push_bit (48 - range_mask self) 1))"

subsection \<open>The random source\<close>

text \<open>
  \<^verbatim>\<open>randrange(0, n)\<close> raises ValueError on an empty range and returns some integer of
  \<open>[0, n)\<close> otherwise. The generator is not modelled: \<open>r\<close> is the raw number it
  produces for this call, reduced into the range, so that every value of the range is the
  result for some \<open>r\<close>.
\<close>

definition randrange :: "nat \<Rightarrow> nat \<Rightarrow> error + nat" where
  "randrange r n = (if n = 0 then Inl ValueError else Inr (r mod n))"

subsection \<open>class MACRanges\<close>

definition MACRanges_len :: "MACRange list \<Rightarrow> error + nat" where
  "MACRanges_len self =
     (case collect (map MACRange_len self) of Inl e \<Rightarrow> Inl e | Inr ls \<Rightarrow> Inr (sum_list ls))"

text \<open>
  The loop of \<^verbatim>\<open>MACRanges.rand\<close>; a loop that ends without \<^verbatim>\<open>return\<close> makes
  the method return \<open>None\<close>.
\<close>

fun MACRanges_walk :: "MACRange list \<Rightarrow> nat \<Rightarrow> error + MAC option" where
  "MACRanges_walk [] offset = Inr None"
| "MACRanges_walk (macs # rest) offset =
     (case MACRange_len macs of
        Inl e \<Rightarrow> Inl e
      | Inr l \<Rightarrow>
          if offset \<ge> l then MACRanges_walk rest (offset - l)
          else Inr (Some (range_mac macs + int offset)))"

definition MACRanges_rand :: "nat \<Rightarrow> MACRange list \<Rightarrow> error + MAC option" where
  "MACRanges_rand r self =
     (case MACRanges_len self of
        Inl e \<Rightarrow> Inl e
      | Inr n \<Rightarrow> (case randrange r n of Inl e \<Rightarrow> Inl e | Inr offset \<Rightarrow> MACRanges_walk self offset))"

subsection \<open>The ipaddress library: networks and addresses\<close>

text \<open>
  \<^verbatim>\<open>IPv4Network\<close>, \<^verbatim>\<open>IPv6Network\<close> and the address classes come from Python's
  standard library; the definitions below follow the library's code for the operations the
  script calls. A network object holds its version, its network address as an integer and
  its prefix length. The library's constructors are strict: a network that exists has a
  prefix length within the width of its version and no host bit set (\<open>wf_network\<close>),
  and \<open>subnets\<close> below is the library's for such networks. Two networks are equal when
  version, network address and prefix length agree, which is the equality of the record.
\<close>

datatype ipversion = V4 | V6

record ip_network =
  version :: ipversion
  network_address :: nat
  prefixlen :: nat

datatype ip_address = IPAddress ipversion nat

fun max_prefixlen :: "ipversion \<Rightarrow> nat" where
  "max_prefixlen V4 = 32"
| "max_prefixlen V6 = 128"

definition wf_network :: "ip_network \<Rightarrow> bool" where
  "wf_network n =
     (prefixlen n \<le> max_prefixlen (version n) \<and>
      network_address n < 2 ^ max_prefixlen (version n) \<and>
      network_address n mod 2 ^ (max_prefixlen (version n) - prefixlen n) = 0)"

definition hostmask :: "ip_network \<Rightarrow> nat" where
  "hostmask n = 2 ^ (max_prefixlen (version n) - prefixlen n) - 1"

definition broadcast_address :: "ip_network \<Rightarrow> nat" where
  "broadcast_address n = network_address n OR hostmask n"

definition num_addresses :: "ip_network \<Rightarrow> nat" where
  "num_addresses n = broadcast_address n - network_address n + 1"

text \<open>\<^verbatim>\<open>a.subnet_of(b)\<close>: TypeError when the versions differ.\<close>

definition subnet_of :: "ip_network \<Rightarrow> ip_network \<Rightarrow> error + bool" where
  "subnet_of a b =
     (if version a \<noteq> version b then Inl TypeError
      else Inr (network_address b \<le> network_address a \<and>
                broadcast_address b \<ge> broadcast_address a))"

text \<open>
  \<^verbatim>\<open>n.subnets()\<close> with the default \<^verbatim>\<open>prefixlen_diff=1\<close>: a network of one address
  yields itself, any other its two halves. \<open>unpack2\<close> is the assignment
  \<^verbatim>\<open>s1, s2 = ...\<close>, which raises ValueError unless exactly two values arrive.
\<close>

definition subnets :: "ip_network \<Rightarrow> error + ip_network list" where
  "subnets n =
     (if prefixlen n = max_prefixlen (version n) then Inr [n]
      else if max_prefixlen (version n) < prefixlen n + 1 then Inl ValueError
      else Inr [n\<lparr>prefixlen := prefixlen n + 1\<rparr>,
                n\<lparr>network_address := network_address n + (hostmask n + 1) div 2,
                  prefixlen := prefixlen n + 1\<rparr>])"

fun unpack2 :: "error + 'a list \<Rightarrow> error + 'a \<times> 'a" where
  "unpack2 (Inl e) = Inl e"
| "unpack2 (Inr [a, b]) = Inr (a, b)"
| "unpack2 (Inr xs) = Inl ValueError"

lemma unpack2_subnets:
  "unpack2 (subnets n) = Inr (a, b) \<Longrightarrow>
     prefixlen n < max_prefixlen (version n) \<and>
     a = n\<lparr>prefixlen := prefixlen n + 1\<rparr> \<and>
     b = n\<lparr>network_address := network_address n + (hostmask n + 1) div 2,
           prefixlen := prefixlen n + 1\<rparr>"
  by (auto simp: subnets_def split: if_splits)

text \<open>
  \<^verbatim>\<open>s.address_exclude(other)\<close> is a generator, read to its end by
  \<^verbatim>\<open>list.extend\<close>; the model returns the list of the networks it yields, or the
  exception it raises on the way. \<open>exclude_loop\<close> is its \<^verbatim>\<open>while\<close> loop together
  with the final \<^verbatim>\<open>if\<close>, on the current halves \<open>s1\<close> and \<open>s2\<close>.
\<close>

function exclude_loop :: "ip_network \<Rightarrow> ip_network \<Rightarrow> ip_network \<Rightarrow> error + ip_network list" where
  "exclude_loop s1 s2 other =
     (if s1 \<noteq> other \<and> s2 \<noteq> other then
        (case subnet_of other s1 of
           Inl e \<Rightarrow> Inl e
         | Inr in1 \<Rightarrow>
             if in1 then
               (case unpack2 (subnets s1) of
                  Inl e \<Rightarrow> Inl e
                | Inr (a, b) \<Rightarrow>
                    (case exclude_loop a b other of Inl e \<Rightarrow> Inl e | Inr ys \<Rightarrow> Inr (s2 # ys)))
             else
               (case subnet_of other s2 of
                  Inl e \<Rightarrow> Inl e
                | Inr in2 \<Rightarrow>
                    if in2 then
                      (case unpack2 (subnets s2) of
                         Inl e \<Rightarrow> Inl e
                       | Inr (a, b) \<Rightarrow>
                           (case exclude_loop a b other of
                              Inl e \<Rightarrow> Inl e | Inr ys \<Rightarrow> Inr (s1 # ys)))
                    else Inl AssertionError))
      else if s1 = other then Inr [s2]
      else if s2 = other then Inr [s1]
      else Inl AssertionError)"
  by pat_completeness auto
termination
proof (relation "measure (\<lambda>(s1, s2, other).
    max (max_prefixlen (version s1) - prefixlen s1) (max_prefixlen (version s2) - prefixlen s2))")
  show "wf (measure (\<lambda>(s1, s2, other).
    max (max_prefixlen (version s1) - prefixlen s1) (max_prefixlen (version s2) - prefixlen s2)))"
    by simp
next
  fix s1 s2 other :: ip_network and x2 y a b
  assume "unpack2 (subnets s1) = Inr y" and "(a, b) = y"
  then have "unpack2 (subnets s1) = Inr (a, b)" by simp
  from unpack2_subnets [OF this]
  show "((a, b, other), s1, s2, other) \<in> measure (\<lambda>(s1, s2, other).
    max (max_prefixlen (version s1) - prefixlen s1) (max_prefixlen (version s2) - prefixlen s2))"
    by auto
next
  fix s1 s2 other :: ip_network and x2 x2a y a b
  assume "unpack2 (subnets s2) = Inr y" and "(a, b) = y"
  then have "unpack2 (subnets s2) = Inr (a, b)" by simp
  from unpack2_subnets [OF this]
  show "((a, b, other), s1, s2, other) \<in> measure (\<lambda>(s1, s2, other).
    max (max_prefixlen (version s1) - prefixlen s1) (max_prefixlen (version s2) - prefixlen s2))"
    by auto
qed

declare exclude_loop.simps [simp del]

definition address_exclude :: "ip_network \<Rightarrow> ip_network \<Rightarrow> error + ip_network list" where
  "address_exclude self other =
     (if version self \<noteq> version other then Inl TypeError
      else
        (case subnet_of other self of
           Inl e \<Rightarrow> Inl e
         | Inr sub \<Rightarrow>
             if \<not> sub then Inl ValueError
             else if other = self then Inr []
             else
               (case unpack2 (subnets self) of
                  Inl e \<Rightarrow> Inl e
                | Inr (s1, s2) \<Rightarrow> exclude_loop s1 s2 other)))"

subsection \<open>class IPNetworks\<close>

text \<open>
  The size of a network as its prefix length gives it, and of a list of networks. For a
  network that satisfies \<open>wf_network\<close> this is \<open>num_addresses\<close>; the loops below
  are shown to end by it.
\<close>

definition weight :: "ip_network \<Rightarrow> nat" where
  "weight n = 2 ^ (max_prefixlen (version n) - prefixlen n)"

definition total_weight :: "ip_network list \<Rightarrow> nat" where
  "total_weight ns = sum_list (map weight ns)"

text \<open>\<^verbatim>\<open>list.remove(x)\<close> removes the first element equal to \<open>x\<close> and raises ValueError when there is none.\<close>

definition list_remove :: "'a \<Rightarrow> 'a list \<Rightarrow> error + 'a list" where
  "list_remove x xs = (if x \<in> set xs then Inr (remove1 x xs) else Inl ValueError)"

text \<open>
  \<^verbatim>\<open>IPNetworks.subnets_of\<close>: \<open>subnet_of_any\<close> is its inner loop over
  \<^verbatim>\<open>others\<close> for one member \<open>s\<close>.
\<close>

fun subnet_of_any :: "ip_network \<Rightarrow> ip_network list \<Rightarrow> error + bool" where
  "subnet_of_any s [] = Inr False"
| "subnet_of_any s (other # others) =
     (case subnet_of s other of
        Inl e \<Rightarrow> Inl e
      | Inr sub \<Rightarrow> if sub then Inr True else subnet_of_any s others)"

fun subnets_of :: "ip_network list \<Rightarrow> ip_network list \<Rightarrow> error + bool" where
  "subnets_of [] others = Inr False"
| "subnets_of (s # self) others =
     (case subnet_of_any s others of
        Inl e \<Rightarrow> Inl e
      | Inr sub \<Rightarrow> if sub then Inr True else subnets_of self others)"

text \<open>
  \<^verbatim>\<open>IPNetworks.addresses_exclude\<close>. \<open>exclude_others\<close> is the inner loop
  \<^verbatim>\<open>for o in others\<close> for the member \<open>s\<close> the outer loop stands at; the list
  is changed while both loops run.
\<close>

fun exclude_others :: "ip_network \<Rightarrow> ip_network list \<Rightarrow> ip_network list \<Rightarrow> error + ip_network list" where
  "exclude_others s [] self = Inr self"
| "exclude_others s (other # others) self =
     (case subnet_of other s of
        Inl e \<Rightarrow> Inl e
      | Inr other_in_s \<Rightarrow>
          if other_in_s then
            (case list_remove s self of
               Inl e \<Rightarrow> Inl e
             | Inr self1 \<Rightarrow>
                 (case address_exclude s other of
                    Inl e \<Rightarrow> Inl e
                  | Inr new \<Rightarrow> exclude_others s others (self1 @ new)))
          else
            (case subnet_of s other of
               Inl e \<Rightarrow> Inl e
             | Inr s_in_other \<Rightarrow>
                 if s_in_other then
                   (case list_remove s self of
                      Inl e \<Rightarrow> Inl e
                    | Inr self1 \<Rightarrow> exclude_others s others self1)
                 else exclude_others s others self))"

lemma weight_pos: "0 < weight n"
  by (simp add: weight_def)

lemma exclude_loop_weight:
  "exclude_loop s1 s2 other = Inr ys \<Longrightarrow> prefixlen s1 = prefixlen s2 \<Longrightarrow> version s1 = version s2 \<Longrightarrow>
     total_weight ys < 2 * weight s1"
proof (induction s1 s2 other arbitrary: ys rule: exclude_loop.induct)
  case (1 s1 s2 other)
  have w12: "weight s2 = weight s1" using "1.prems" by (simp add: weight_def)
  show ?case
  proof (cases "s1 \<noteq> other \<and> s2 \<noteq> other")
    case False
    with "1.prems"(1) have "ys = [s2] \<or> ys = [s1]"
      by (auto simp: exclude_loop.simps [of s1 s2 other] split: if_splits)
    then show ?thesis using w12 weight_pos [of s1] by (auto simp: total_weight_def)
  next
    case True
    note ne = this
    from "1.prems"(1) ne obtain in1 where in1: "subnet_of other s1 = Inr in1"
      by (auto simp: exclude_loop.simps [of s1 s2 other] split: sum.splits)
    show ?thesis
    proof (cases in1)
      case True
      from "1.prems"(1) ne in1 True obtain a b zs where
        ab: "unpack2 (subnets s1) = Inr (a, b)" and zs: "exclude_loop a b other = Inr zs" and ys: "ys = s2 # zs"
        by (auto simp: exclude_loop.simps [of s1 s2 other] split: sum.splits prod.splits)
      from unpack2_subnets [OF ab] have
        pa: "prefixlen a = prefixlen b" "version a = version b" and wa: "2 * weight a = weight s1"
        by (auto simp: weight_def Suc_diff_Suc simp flip: power_Suc)
      from "1.IH"(1) [OF ne in1 True ab refl zs pa] have "total_weight zs < 2 * weight a" .
      then show ?thesis using ys wa w12 by (simp add: total_weight_def)
    next
      case False
      from "1.prems"(1) ne in1 False obtain in2 where in2: "subnet_of other s2 = Inr in2"
        by (auto simp: exclude_loop.simps [of s1 s2 other] split: sum.splits)
      from "1.prems"(1) ne in1 False in2 have in2t: in2
        by (auto simp: exclude_loop.simps [of s1 s2 other] split: sum.splits if_splits)
      from "1.prems"(1) ne in1 False in2 in2t obtain a b zs where
        ab: "unpack2 (subnets s2) = Inr (a, b)" and zs: "exclude_loop a b other = Inr zs" and ys: "ys = s1 # zs"
        by (auto simp: exclude_loop.simps [of s1 s2 other] split: sum.splits prod.splits)
      from unpack2_subnets [OF ab] have
        pa: "prefixlen a = prefixlen b" "version a = version b" and wa: "2 * weight a = weight s2"
        by (auto simp: weight_def Suc_diff_Suc simp flip: power_Suc)
      from "1.IH"(2) [OF ne in1 False in2 in2t ab refl zs pa] have "total_weight zs < 2 * weight a" .
      then show ?thesis using ys wa w12 by (simp add: total_weight_def)
    qed
  qed
qed

lemma address_exclude_weight:
  assumes "address_exclude s other = Inr ys"
  shows "total_weight ys < weight s"
proof (cases "other = s")
  case True
  with assms have "ys = []" by (auto simp: address_exclude_def split: if_splits sum.splits)
  then show ?thesis by (simp add: total_weight_def weight_pos)
next
  case False
  with assms obtain s1 s2 where ab: "unpack2 (subnets s) = Inr (s1, s2)"
    and ys: "exclude_loop s1 s2 other = Inr ys"
    by (auto simp: address_exclude_def split: if_splits sum.splits prod.splits)
  from unpack2_subnets [OF ab] have
    pa: "prefixlen s1 = prefixlen s2" "version s1 = version s2" and wa: "2 * weight s1 = weight s"
    by (auto simp: weight_def Suc_diff_Suc simp flip: power_Suc)
  from exclude_loop_weight [OF ys pa] wa show ?thesis by simp
qed

lemma list_remove_weight:
  "list_remove s xs = Inr ys \<Longrightarrow> total_weight ys + weight s = total_weight xs"
  by (auto simp: list_remove_def total_weight_def sum_list_map_remove1 split: if_splits)

lemma total_weight_append: "total_weight (xs @ ys) = total_weight xs + total_weight ys"
  by (simp add: total_weight_def)

lemma exclude_others_weight:
  "exclude_others s others xs = Inr ys \<Longrightarrow>
     total_weight ys \<le> total_weight xs \<and>
     (total_weight ys = total_weight xs \<longrightarrow>
        ys = xs \<and> (\<forall>other\<in>set others. subnet_of other s = Inr False \<and> subnet_of s other = Inr False))"
proof (induction others arbitrary: xs)
  case Nil
  then show ?case by simp
next
  case (Cons other others)
  from Cons.prems obtain in1 where in1: "subnet_of other s = Inr in1"
    by (auto split: sum.splits)
  show ?case
  proof (cases in1)
    case True
    from Cons.prems in1 True obtain xs1 new where
      r: "list_remove s xs = Inr xs1" and n: "address_exclude s other = Inr new"
      and rest: "exclude_others s others (xs1 @ new) = Inr ys"
      by (auto split: sum.splits)
    from Cons.IH [OF rest] have "total_weight ys \<le> total_weight (xs1 @ new)" by simp
    also have "\<dots> < total_weight xs"
      using list_remove_weight [OF r] address_exclude_weight [OF n] by (simp add: total_weight_append)
    finally show ?thesis by simp
  next
    case False
    note f1 = this
    from Cons.prems in1 False obtain in2 where in2: "subnet_of s other = Inr in2"
      by (auto split: sum.splits)
    show ?thesis
    proof (cases in2)
      case True
      from Cons.prems in1 f1 in2 True obtain xs1 where
        r: "list_remove s xs = Inr xs1" and rest: "exclude_others s others xs1 = Inr ys"
        by (auto split: sum.splits)
      from Cons.IH [OF rest] have "total_weight ys \<le> total_weight xs1" by simp
      also have "\<dots> < total_weight xs"
        using list_remove_weight [OF r] weight_pos [of s] by simp
      finally show ?thesis by simp
    next
      case False
      from Cons.prems in1 f1 in2 False have rest: "exclude_others s others xs = Inr ys"
        by simp
      from Cons.IH [OF rest] in1 f1 in2 False show ?thesis by simp
    qed
  qed
qed

text \<open>
  The outer loop \<^verbatim>\<open>for s in self\<close>. Python's list iterator keeps an index: each
  round reads the element at the index from the list as it is then, and the loop ends when
  the index reaches the length the list has then. So a removal before the index makes the
  loop skip an element, and the networks appended by \<^verbatim>\<open>extend\<close> are visited in the
  same pass.
\<close>

function exclude_each :: "nat \<Rightarrow> ip_network list \<Rightarrow> ip_network list \<Rightarrow> error + ip_network list" where
  "exclude_each i others self =
     (if i < length self then
        (case exclude_others (self ! i) others self of
           Inl e \<Rightarrow> Inl e
         | Inr self1 \<Rightarrow> exclude_each (i + 1) others self1)
      else Inr self)"
  by pat_completeness auto
termination
proof (relation "measures [\<lambda>(i, others, self). total_weight self, \<lambda>(i, others, self). length self - i]")
  show "wf (measures [\<lambda>(i, others, self). total_weight self, \<lambda>(i, others, self). length self - i])"
    by simp
next
  fix i :: nat and others self self1 :: "ip_network list"
  assume "i < length self" and "exclude_others (self ! i) others self = Inr self1"
  with exclude_others_weight [of "self ! i" others self self1]
  show "((i + 1, others, self1), i, others, self)
     \<in> measures [\<lambda>(i, others, self). total_weight self, \<lambda>(i, others, self). length self - i]"
    by auto
qed

declare exclude_each.simps [simp del]

lemma exclude_each_weight:
  "exclude_each i others xs = Inr ys \<Longrightarrow>
     total_weight ys \<le> total_weight xs \<and>
     (total_weight ys = total_weight xs \<longrightarrow>
        ys = xs \<and> (\<forall>j. i \<le> j \<and> j < length xs \<longrightarrow>
           (\<forall>other\<in>set others. subnet_of (xs ! j) other = Inr False)))"
proof (induction i others xs arbitrary: ys rule: exclude_each.induct)
  case (1 i others xs)
  show ?case
  proof (cases "i < length xs")
    case False
    with "1.prems" show ?thesis by (auto simp: exclude_each.simps [of i others xs])
  next
    case True
    with "1.prems" obtain xs1 where
      inner: "exclude_others (xs ! i) others xs = Inr xs1" and rest: "exclude_each (i + 1) others xs1 = Inr ys"
      by (auto simp: exclude_each.simps [of i others xs] split: sum.splits)
    note w1 = exclude_others_weight [OF inner]
    note w2 = "1.IH" [OF True inner rest]
    from w1 w2 have le: "total_weight ys \<le> total_weight xs" by simp
    have "ys = xs \<and> (\<forall>j. i \<le> j \<and> j < length xs \<longrightarrow>
           (\<forall>other\<in>set others. subnet_of (xs ! j) other = Inr False))"
      if eq: "total_weight ys = total_weight xs"
    proof -
      from eq w1 w2 have e1: "total_weight xs1 = total_weight xs" by simp
      with w1 have x1: "xs1 = xs" and here: "\<forall>other\<in>set others. subnet_of (xs ! i) other = Inr False"
        by simp_all
      from eq w2 x1 have "ys = xs" and
        later: "\<forall>j. i + 1 \<le> j \<and> j < length xs \<longrightarrow> (\<forall>other\<in>set others. subnet_of (xs ! j) other = Inr False)"
        by simp_all
      have "\<forall>other\<in>set others. subnet_of (xs ! j) other = Inr False" if "i \<le> j" "j < length xs" for j
      proof (cases "j = i")
        case True
        with here show ?thesis by simp
      next
        case False
        with that later show ?thesis by simp
      qed
      with \<open>ys = xs\<close> show ?thesis by simp
    qed
    with le show ?thesis by simp
  qed
qed

lemma subnet_of_any_True:
  "subnet_of_any s others = Inr True \<Longrightarrow> \<exists>other\<in>set others. subnet_of s other = Inr True"
  by (induction others) (auto split: sum.splits if_splits)

lemma subnets_of_True:
  "subnets_of xs others = Inr True \<Longrightarrow> \<exists>s\<in>set xs. \<exists>other\<in>set others. subnet_of s other = Inr True"
  by (induction xs) (auto split: sum.splits if_splits dest: subnet_of_any_True)

lemma exclude_each_decreases:
  assumes "subnets_of xs others = Inr True" and "exclude_each 0 others xs = Inr ys"
  shows "total_weight ys < total_weight xs"
proof (rule ccontr)
  assume "\<not> total_weight ys < total_weight xs"
  with exclude_each_weight [OF assms(2)] have
    none: "\<forall>j. j < length xs \<longrightarrow> (\<forall>other\<in>set others. subnet_of (xs ! j) other = Inr False)"
    by simp
  from subnets_of_True [OF assms(1)] obtain s other where
    s: "s \<in> set xs" and other: "other \<in> set others" and sub: "subnet_of s other = Inr True" by blast
  from s obtain j where j: "j < length xs" "xs ! j = s" by (auto simp: in_set_conv_nth)
  from none j other have "subnet_of s other = Inr False" by blast
  with sub show False by simp
qed

text \<open>The \<^verbatim>\<open>while self.subnets_of(others)\<close> loop.\<close>

function addresses_exclude :: "ip_network list \<Rightarrow> ip_network list \<Rightarrow> error + ip_network list" where
  "addresses_exclude self others =
     (case subnets_of self others of
        Inl e \<Rightarrow> Inl e
      | Inr again \<Rightarrow>
          if again then
            (case exclude_each 0 others self of
               Inl e \<Rightarrow> Inl e
             | Inr self1 \<Rightarrow> addresses_exclude self1 others)
          else Inr self)"
  by pat_completeness auto
termination
proof (relation "measure (\<lambda>(self, others). total_weight self)")
  show "wf (measure (\<lambda>(self, others). total_weight self))" by simp
next
  fix self others self1 :: "ip_network list" and again
  assume "subnets_of self others = Inr again" and again and "exclude_each 0 others self = Inr self1"
  then show "((self1, others), self, others) \<in> measure (\<lambda>(self, others). total_weight self)"
    using exclude_each_decreases [of self others self1] by simp
qed

declare addresses_exclude.simps [simp del]

definition IPNetworks_len :: "ip_network list \<Rightarrow> nat" where
  "IPNetworks_len self = sum_list (map num_addresses self)"

text \<open>
  \<^verbatim>\<open>network.network_address + offset\<close> builds an address from the sum, which raises
  AddressValueError beyond the width of the version.
\<close>

definition address_add :: "ip_network \<Rightarrow> nat \<Rightarrow> error + ip_address" where
  "address_add network offset =
     (if network_address network + offset < 2 ^ max_prefixlen (version network)
      then Inr (IPAddress (version network) (network_address network + offset))
      else Inl AddressValueError)"

fun IPNetworks_walk :: "ip_network list \<Rightarrow> nat \<Rightarrow> error + ip_address option" where
  "IPNetworks_walk [] offset = Inr None"
| "IPNetworks_walk (network # rest) offset =
     (if offset \<ge> num_addresses network then IPNetworks_walk rest (offset - num_addresses network)
      else (case address_add network offset of Inl e \<Rightarrow> Inl e | Inr a \<Rightarrow> Inr (Some a)))"

definition IPNetworks_rand :: "nat \<Rightarrow> ip_network list \<Rightarrow> error + ip_address option" where
  "IPNetworks_rand r self =
     (case randrange r (IPNetworks_len self) of
        Inl e \<Rightarrow> Inl e
      | Inr offset \<Rightarrow> IPNetworks_walk self offset)"

text \<open>\<^verbatim>\<open>ip_network(address)\<close> on an address object is the network of that one address.\<close>

fun ip_network_of :: "ip_address \<Rightarrow> ip_network" where
  "ip_network_of (IPAddress v a) = \<lparr>version = v, network_address = a, prefixlen = max_prefixlen v\<rparr>"

text \<open>
  \<^verbatim>\<open>network.hosts()\<close>: a network of two addresses yields both and a network of one
  address yields it; any other IPv4 network leaves out its network and broadcast addresses,
  any other IPv6 network its network address only.
\<close>

definition hosts :: "ip_network \<Rightarrow> ip_address list" where
  "hosts n =
     (if prefixlen n = max_prefixlen (version n) - 1
      then map (IPAddress (version n)) [network_address n ..< broadcast_address n + 1]
      else if prefixlen n = max_prefixlen (version n)
      then [IPAddress (version n) (network_address n)]
      else (case version n of
              V4 \<Rightarrow> map (IPAddress V4) [network_address n + 1 ..< broadcast_address n]
            | V6 \<Rightarrow> map (IPAddress V6) [network_address n + 1 ..< broadcast_address n + 1]))"

subsection \<open>The script: building the spoof table\<close>

text \<open>
  \<^verbatim>\<open>--count\<close> is declared with \<^verbatim>\<open>type=float\<close> and the default \<open>10\<close>: the
  parser converts what the command line gives, so \<^verbatim>\<open>args.count\<close> is a float when the
  option is given and the integer \<open>10\<close> when it is not. A float stands here for the (finite)
  number it denotes. \<open>py_min a b\<close> is \<^verbatim>\<open>min(a, b)\<close>, which returns its first argument
  unless the second is smaller; \<open>py_range\<close> is the number of rounds of
  \<^verbatim>\<open>for _ in range(x)\<close>, and \<^verbatim>\<open>range\<close> raises TypeError on a float.
\<close>

datatype number = PyInt int | PyFloat real

fun num_less :: "number \<Rightarrow> number \<Rightarrow> bool" where
  "num_less (PyInt a) (PyInt b) = (a < b)"
| "num_less (PyInt a) (PyFloat b) = (real_of_int a < b)"
| "num_less (PyFloat a) (PyInt b) = (a < real_of_int b)"
| "num_less (PyFloat a) (PyFloat b) = (a < b)"

definition py_min :: "number \<Rightarrow> number \<Rightarrow> number" where
  "py_min a b = (if num_less b a then b else a)"

fun py_range :: "number \<Rightarrow> error + nat" where
  "py_range (PyInt n) = Inr (nat n)"
| "py_range (PyFloat x) = Inl TypeError"

text \<open>
  The dictionary \<^verbatim>\<open>spoofed\<close> as the list of its items in insertion order:
  \<^verbatim>\<open>d[k] = v\<close> replaces the value of a key that is present, in place.
\<close>

fun dict_set :: "('k \<times> 'v) list \<Rightarrow> 'k \<Rightarrow> 'v \<Rightarrow> ('k \<times> 'v) list" where
  "dict_set [] k v = [(k, v)]"
| "dict_set ((k', v') # d) k v = (if k' = k then (k', v) # d else (k', v') # dict_set d k v)"

text \<open>
  The loop that fills the table, \<open>n\<close> rounds of it. The random source is the sequence
  \<open>rnd\<close> of raw numbers; \<open>k\<close> counts the calls of \<^verbatim>\<open>randrange\<close> so far. A round
  draws an address, excludes it from \<^verbatim>\<open>spoofs\<close> and stores a MAC drawn for it. Were
  the address \<open>None\<close> (\<^verbatim>\<open>rand\<close> returns it when its loop ends without a result),
  \<^verbatim>\<open>ip_network(None)\<close> would raise ValueError.
\<close>

fun build :: "nat \<Rightarrow> (nat \<Rightarrow> nat) \<Rightarrow> nat \<Rightarrow> MACRange list \<Rightarrow> ip_network list \<Rightarrow>
    (ip_address \<times> MAC option) list \<Rightarrow> error + ip_network list \<times> (ip_address \<times> MAC option) list" where
  "build 0 rnd k spoof_macs spoofs spoofed = Inr (spoofs, spoofed)"
| "build (Suc n) rnd k spoof_macs spoofs spoofed =
     (case IPNetworks_rand (rnd k) spoofs of
        Inl e \<Rightarrow> Inl e
      | Inr None \<Rightarrow> Inl ValueError
      | Inr (Some address) \<Rightarrow>
          (case addresses_exclude spoofs [ip_network_of address] of
             Inl e \<Rightarrow> Inl e
           | Inr spoofs1 \<Rightarrow>
               (case MACRanges_rand (rnd (k + 1)) spoof_macs of
                  Inl e \<Rightarrow> Inl e
                | Inr mac \<Rightarrow>
                    build n rnd (k + 2) spoof_macs spoofs1 (dict_set spoofed address mac))))"

text \<open>
  Lines 154 to 166 of the script, from the parsed networks of \<^verbatim>\<open>--target\<close> and
  \<^verbatim>\<open>--spoof\<close> (the library parses their texts), the texts of \<^verbatim>\<open>--mac\<close> and
  \<^verbatim>\<open>args.count\<close>, to the table \<^verbatim>\<open>spoofed\<close>.
\<close>

definition spoof_table :: "(nat \<Rightarrow> nat option) \<Rightarrow> ip_network list \<Rightarrow> ip_network list \<Rightarrow>
    pystr list \<Rightarrow> number \<Rightarrow> (nat \<Rightarrow> nat) \<Rightarrow> error + (ip_address \<times> MAC option) list" where
  "spoof_table uni targets spoof mac_texts count_arg rnd =
     (case addresses_exclude spoof targets of
        Inl e \<Rightarrow> Inl e
      | Inr spoofs \<Rightarrow>
          (case collect (map (MACRange_init uni) mac_texts) of
             Inl e \<Rightarrow> Inl e
           | Inr spoof_macs \<Rightarrow>
               (case py_range (py_min count_arg (PyInt (int (IPNetworks_len spoofs)))) of
                  Inl e \<Rightarrow> Inl e
                | Inr n \<Rightarrow>
                    (case build n rnd 0 spoof_macs spoofs [] of
                       Inl e \<Rightarrow> Inl e
                     | Inr (spoofs1, spoofed) \<Rightarrow> Inr spoofed))))"

subsection \<open>The script: the scheduling loop\<close>

text \<open>
  What the script does to the world is the list of its events, in order: a frame handed to
  \<^verbatim>\<open>srp\<close> (destination host, claimed address, text of the claimed MAC) and a call of
  \<^verbatim>\<open>sleep\<close>. The lines it prints are left out, and \<^verbatim>\<open>srp\<close> is taken to return.
  A function that acts returns the exception it raised, if any, and the events so far.
  \<open>py_str\<close> is \<^verbatim>\<open>str(hwsrc)\<close>, which is \<^verbatim>\<open>MAC.__str__\<close> on a MAC.
\<close>

datatype event = Send ip_address ip_address string | Sleep int

fun py_str :: "MAC option \<Rightarrow> error + string" where
  "py_str None = Inr ''None''"
| "py_str (Some m) = MAC_str m"

definition spoof :: "ip_address \<Rightarrow> ip_address \<Rightarrow> MAC option \<Rightarrow> event list \<Rightarrow> error option \<times> event list" where
  "spoof dst src hwsrc w =
     (case py_str hwsrc of Inl e \<Rightarrow> (Some e, w) | Inr text \<Rightarrow> (None, w @ [Send dst src text]))"

text \<open>The three nested loops of one pass, innermost first.\<close>

fun spoof_hosts :: "ip_address list \<Rightarrow> ip_address \<Rightarrow> MAC option \<Rightarrow> event list \<Rightarrow> error option \<times> event list" where
  "spoof_hosts [] address mac w = (None, w)"
| "spoof_hosts (host # rest) address mac w =
     (case spoof host address mac w of
        (Some e, w1) \<Rightarrow> (Some e, w1)
      | (None, w1) \<Rightarrow> spoof_hosts rest address mac w1)"

fun spoof_targets :: "ip_network list \<Rightarrow> ip_address \<Rightarrow> MAC option \<Rightarrow> event list \<Rightarrow> error option \<times> event list" where
  "spoof_targets [] address mac w = (None, w)"
| "spoof_targets (target # rest) address mac w =
     (case spoof_hosts (hosts target) address mac w of
        (Some e, w1) \<Rightarrow> (Some e, w1)
      | (None, w1) \<Rightarrow> spoof_targets rest address mac w1)"

fun spoof_pass :: "(ip_address \<times> MAC option) list \<Rightarrow> ip_network list \<Rightarrow> event list \<Rightarrow> error option \<times> event list" where
  "spoof_pass [] targets w = (None, w)"
| "spoof_pass ((address, mac) # rest) targets w =
     (case spoof_targets targets address mac w of
        (Some e, w1) \<Rightarrow> (Some e, w1)
      | (None, w1) \<Rightarrow> spoof_pass rest targets w1)"

text \<open>
  \<^verbatim>\<open>sleep(seconds)\<close> on an integer: OverflowError when the number of nanoseconds does
  not fit 64 bits (from 9223372037 seconds on, in either direction), ValueError on any other
  negative number.
\<close>

definition sleep :: "int \<Rightarrow> event list \<Rightarrow> error option \<times> event list" where
  "sleep secs w =
     (if secs < - 9223372036 \<or> 9223372036 < secs then (Some OverflowError, w)
      else if secs < 0 then (Some ValueError, w)
      else (None, w @ [Sleep secs]))"

text \<open>
  The \<^verbatim>\<open>while True\<close> loop can run forever, so it runs on fuel here: one unit for each
  pass. \<open>Running\<close> says that the fuel ran out with the loop still going; \<open>Finished\<close>
  is the \<^verbatim>\<open>break\<close>. \<^verbatim>\<open>if args.seconds\<close> is false on \<open>None\<close> and on \<open>0\<close>.
\<close>

datatype outcome = Finished | Raised error | Running

fun scheduler :: "nat \<Rightarrow> (ip_address \<times> MAC option) list \<Rightarrow> ip_network list \<Rightarrow> int option \<Rightarrow>
    event list \<Rightarrow> outcome \<times> event list" where
  "scheduler 0 spoofed targets seconds w = (Running, w)"
| "scheduler (Suc fuel) spoofed targets seconds w =
     (case spoof_pass spoofed targets w of
        (Some e, w1) \<Rightarrow> (Raised e, w1)
      | (None, w1) \<Rightarrow>
          (case seconds of
             None \<Rightarrow> (Finished, w1)
           | Some s \<Rightarrow>
               if s \<noteq> 0 then
                 (case sleep s w1 of
                    (Some e, w2) \<Rightarrow> (Raised e, w2)
                  | (None, w2) \<Rightarrow> scheduler fuel spoofed targets seconds w2)
               else (Finished, w1)))"

text \<open>The script from line 154 on.\<close>

definition main :: "(nat \<Rightarrow> nat option) \<Rightarrow> ip_network list \<Rightarrow> ip_network list \<Rightarrow> pystr list \<Rightarrow>
    number \<Rightarrow> int option \<Rightarrow> (nat \<Rightarrow> nat) \<Rightarrow> nat \<Rightarrow> outcome \<times> event list" where
  "main uni targets spoof_arg mac_texts count_arg seconds rnd fuel =
     (case spoof_table uni targets spoof_arg mac_texts count_arg rnd of
        Inl e \<Rightarrow> (Raised e, [])
      | Inr spoofed \<Rightarrow> scheduler fuel spoofed targets seconds [])"

subsection \<open>Notions the properties are stated with\<close>

text \<open>
  \<^verbatim>\<open>address in network\<close>, and the set of the addresses that the members of a list of
  networks cover.
\<close>

definition contains :: "ip_network \<Rightarrow> ip_address \<Rightarrow> bool" where
  "contains n a =
     (case a of IPAddress v x \<Rightarrow>
        v = version n \<and> network_address n \<le> x \<and> x \<le> broadcast_address n)"

definition covered :: "ip_network list \<Rightarrow> ip_address set" where
  "covered ns = {a. \<exists>n\<in>set ns. contains n a}"

text \<open>The number of addresses of a MAC range, \<open>2 ^ (48 - mask)\<close>.\<close>

definition MACRange_size :: "MACRange \<Rightarrow> nat" where
  "MACRange_size m = 2 ^ (48 - range_mask m)"

text \<open>
  The text \<^verbatim>\<open>str\<close> gives for a MAC of the table; the frames of one pass, for every
  entry of the table in order, every target network in order and every host of that network
  in order; and a table whose MACs are 48-bit values, on which \<^verbatim>\<open>MAC.__str__\<close> does
  not raise.
\<close>

definition mac_text :: "MAC option \<Rightarrow> string" where
  "mac_text mac = (case py_str mac of Inl e \<Rightarrow> [] | Inr text \<Rightarrow> text)"

definition pass_calls :: "(ip_address \<times> MAC option) list \<Rightarrow> ip_network list \<Rightarrow> event list" where
  "pass_calls spoofed targets =
     [Send host address (mac_text mac). (address, mac) \<leftarrow> spoofed, target \<leftarrow> targets, host \<leftarrow> hosts target]"

definition all_48_bit :: "(ip_address \<times> MAC option) list \<Rightarrow> bool" where
  "all_48_bit spoofed = (\<forall>(address, mac)\<in>set spoofed. \<forall>v. mac = Some v \<longrightarrow> 0 \<le> v \<and> v < 2 ^ 48)"

text \<open>
  The texts of MAC ranges. \<open>mac_text_ok\<close>: six groups of two hexadecimal digits with a
  separator (\<open>:\<close>, \<open>.\<close> or \<open>-\<close>, as the code takes them) between them, by position.
  \<open>prefix_ok\<close>: decimal digits, no more than \<^verbatim>\<open>int\<close> converts, that denote a prefix
  length of 0 to 48. \<open>pairs_pattern n\<close> is the pattern of \<open>n\<close> groups, each with its
  separator, and \<open>hex_pair\<close> one group as \<^verbatim>\<open>split\<close> returns it.
\<close>

definition mac_text_ok :: "pystr \<Rightarrow> bool" where
  "mac_text_ok m =
     (length m = 17 \<and> (\<forall>i<17. if i mod 3 = 2 then cp_is_sep (m ! i) else cp_is_hex (m ! i)))"

definition digits_value :: "(nat \<Rightarrow> nat option) \<Rightarrow> pystr \<Rightarrow> nat" where
  "digits_value uni ds =
     foldl (\<lambda>acc c. acc * 10 + (case decimal uni c of None \<Rightarrow> 0 | Some d \<Rightarrow> d)) 0 ds"

definition prefix_ok :: "(nat \<Rightarrow> nat option) \<Rightarrow> pystr \<Rightarrow> bool" where
  "prefix_ok uni p =
     (p \<noteq> [] \<and> list_all (is_digit uni) p \<and> length p \<le> 4300 \<and> digits_value uni p \<le> 48)"

definition pairs_pattern :: "nat \<Rightarrow> pystr \<Rightarrow> bool" where
  "pairs_pattern n p =
     (length p = 3 * n \<and> (\<forall>i<3 * n. if i mod 3 = 2 then cp_is_sep (p ! i) else cp_is_hex (p ! i)))"

definition hex_pair :: "string \<Rightarrow> bool" where
  "hex_pair g = (\<exists>a b. g = [a, b] \<and> is_hex a \<and> is_hex b)"

text \<open>A MAC range whose addresses are all 48-bit values.\<close>

definition range_in_48_bit :: "MACRange \<Rightarrow> bool" where
  "range_in_48_bit m =
     (range_mask m \<le> 48 \<and> 0 \<le> range_mac m \<and> range_mac m + 2 ^ (48 - range_mask m) \<le> 2 ^ 48)"


section \<open>Properties\<close>

subsection \<open>MAC text: \<^verbatim>\<open>MAC.parse\<close> after \<^verbatim>\<open>MAC.__str__\<close>\<close>

lemma hex_digit_props:
  assumes "d < 16"
  shows "hex_val (hex_digit d) = d" and "is_hex (hex_digit d)"
proof -
  from assms have "d = 0 \<or> d = 1 \<or> d = 2 \<or> d = 3 \<or> d = 4 \<or> d = 5 \<or> d = 6 \<or> d = 7
      \<or> d = 8 \<or> d = 9 \<or> d = 10 \<or> d = 11 \<or> d = 12 \<or> d = 13 \<or> d = 14 \<or> d = 15"
    by arith
  then show "hex_val (hex_digit d) = d" and "is_hex (hex_digit d)"
    by (auto simp: hex_val_def hex_digit_def is_hex_def)
qed

lemma format_x_hex: "list_all is_hex (format_x n) \<and> format_x n \<noteq> []"
proof (induction n rule: format_x.induct)
  case (1 n)
  show ?case
  proof (cases "n < 16")
    case True
    then show ?thesis by (simp add: format_x.simps [of n] hex_digit_props)
  next
    case False
    with 1 show ?thesis by (simp add: format_x.simps [of n] hex_digit_props)
  qed
qed

lemma format_x_value: "foldl (\<lambda>acc c. acc * 16 + hex_val c) 0 (format_x n) = n"
proof (induction n rule: format_x.induct)
  case (1 n)
  show ?case
  proof (cases "n < 16")
    case True
    then show ?thesis by (simp add: format_x.simps [of n] hex_digit_props)
  next
    case False
    with 1 show ?thesis by (simp add: format_x.simps [of n] hex_digit_props)
  qed
qed

lemma int16_format_x: "int16 (format_x n) = Inr n"
  using format_x_hex [of n] by (simp add: int16_def format_x_value)

lemma collect_int16_format_x: "collect (map (int16 \<circ> format_x) bs) = Inr bs"
  by (induction bs) (simp_all add: int16_format_x)

lemma re_split_acc_hex:
  "list_all is_hex p \<Longrightarrow> re_split_acc cur (p @ rest) = re_split_acc (cur @ p) rest"
  by (induction p arbitrary: cur) simp_all

lemma re_split_acc_colon:
  "list_all is_hex p \<Longrightarrow> re_split_acc cur (p @ CHR '':'' # rest) = (cur @ p) # re_split_acc [] rest"
  by (simp add: re_split_acc_hex is_hex_def)

lemma re_split_acc_last: "list_all is_hex p \<Longrightarrow> re_split_acc cur p = [cur @ p]"
  using re_split_acc_hex [of p cur "[]"] by simp

lemma re_split_join:
  "ps \<noteq> [] \<Longrightarrow> \<forall>p\<in>set ps. list_all is_hex p \<Longrightarrow> re_split_acc [] (join '':'' ps) = ps"
proof (induction "'':''" ps rule: join.induct)
  case 1
  then show ?case by simp
next
  case (2 p)
  then show ?case by (simp add: re_split_acc_last)
next
  case (3 p q ps)
  then show ?case by (simp add: re_split_acc_colon)
qed

lemma bytes_big_bytes: "list_all (\<lambda>b. b < 256) (bytes_big k n)"
  by (induction k arbitrary: n) simp_all

lemma bytes_big_value: "foldl (\<lambda>acc b. acc * 256 + b) 0 (bytes_big k n) = n mod 256 ^ k"
proof (induction k arbitrary: n)
  case 0
  then show ?case by simp
next
  case (Suc k)
  have "n mod (256 * 256 ^ k) = 256 * (n div 256 mod 256 ^ k) + n mod 256"
    by (rule mod_mult2_eq)
  with Suc show ?case by simp
qed

lemma length_bytes_big: "length (bytes_big k n) = k"
  by (induction k arbitrary: n) simp_all

text \<open>
  Claim C8: for every 48-bit MAC value, parsing the text that \<^verbatim>\<open>__str__\<close> produces
  gives the value back: \<^verbatim>\<open>MAC.parse(str(mac)) == mac\<close>. The groups of the text have no
  leading zeros, and \<^verbatim>\<open>MAC.parse\<close> reads them all the same.
\<close>

theorem MAC_parse_str:
  assumes "0 \<le> mac" and "mac < 2 ^ 48"
  shows "\<exists>s. MAC_str mac = Inr s \<and> MAC_parse s = Inr mac"
proof -
  have lt: "mac < 256 ^ 6" using assms(2) by simp
  have s: "MAC_str mac = Inr (join '':'' (map format_x (bytes_big 6 (nat mac))))"
    using assms(1) lt by (simp add: MAC_str_def to_bytes_def)
  have ne: "map format_x (bytes_big 6 (nat mac)) \<noteq> []"
    using length_bytes_big [of 6 "nat mac"] by auto
  have "re_split (join '':'' (map format_x (bytes_big 6 (nat mac)))) = map format_x (bytes_big 6 (nat mac))"
    unfolding re_split_def using ne by (intro re_split_join) (auto simp: format_x_hex)
  then have "MAC_parse (join '':'' (map format_x (bytes_big 6 (nat mac)))) = from_bytes (bytes_big 6 (nat mac))"
    by (simp add: MAC_parse_def collect_int16_format_x)
  also have "\<dots> = Inr (int (nat mac mod 256 ^ 6))"
    by (simp only: from_bytes_def bytes_big_bytes bytes_big_value if_True)
  also have "nat mac mod 256 ^ 6 = nat mac"
    using assms(1) lt by (intro mod_less) (simp add: nat_less_iff)
  finally show ?thesis using s assms(1) by simp
qed

lemma bytes_big_numeral:
  "bytes_big (numeral k) n = bytes_big (pred_numeral k) (n div 256) @ [n mod 256]"
  by (simp only: numeral_eq_Suc bytes_big.simps)

lemma MAC_str_example: "MAC_str 0x0200000000ff = Inr ''2:0:0:0:0:ff''"
  by (simp add: MAC_str_def to_bytes_def bytes_big_numeral format_x.simps hex_digit_def)

theorem MAC_parse_str_witness:
  "MAC_str 0x0200000000ff = Inr ''2:0:0:0:0:ff'' \<and> MAC_parse ''2:0:0:0:0:ff'' = Inr 0x0200000000ff"
  using MAC_parse_str [of "0x0200000000ff"] by (simp add: MAC_str_example)

subsection \<open>Exclusion: what holds when \<^verbatim>\<open>addresses_exclude\<close> returns\<close>

lemma subnet_of_any_False:
  "subnet_of_any s others = Inr False \<Longrightarrow> \<forall>other\<in>set others. subnet_of s other = Inr False"
  by (induction others) (auto split: sum.splits if_splits)

lemma subnets_of_False:
  "subnets_of xs others = Inr False \<Longrightarrow>
     \<forall>s\<in>set xs. \<forall>other\<in>set others. subnet_of s other = Inr False"
  by (induction xs) (auto split: sum.splits if_splits dest: subnet_of_any_False)

lemma addresses_exclude_guard:
  "addresses_exclude xs others = Inr ys \<Longrightarrow> subnets_of ys others = Inr False"
proof (induction xs others rule: addresses_exclude.induct)
  case (1 self others)
  from "1.prems" obtain again where g: "subnets_of self others = Inr again"
    by (auto simp: addresses_exclude.simps [of self others] split: sum.splits)
  show ?case
  proof (cases again)
    case False
    with "1.prems" g show ?thesis by (simp add: addresses_exclude.simps [of self others])
  next
    case True
    with "1.prems" g obtain self1 where
      e: "exclude_each 0 others self = Inr self1" and r: "addresses_exclude self1 others = Inr ys"
      by (auto simp: addresses_exclude.simps [of self others] split: sum.splits)
    from "1.IH" [OF g True e r] show ?thesis .
  qed
qed

lemma subnet_of_refl: "subnet_of s s = Inr True"
  by (simp add: subnet_of_def)

text \<open>
  Claim C1: when \<^verbatim>\<open>S.addresses_exclude(O)\<close> returns, no member of \<open>S\<close> is a subnet
  of, or equal to, a member of \<open>O\<close>: \<^verbatim>\<open>subnets_of\<close> is false, and so is
  \<^verbatim>\<open>s.subnet_of(o)\<close> for every member \<open>s\<close> left and every \<open>o\<close> of \<open>O\<close>. The
  function is total: the call returns such a list or raises.
\<close>

theorem addresses_exclude_no_subnet:
  assumes "addresses_exclude S O' = Inr S'"
  shows "subnets_of S' O' = Inr False \<and>
    (\<forall>s\<in>set S'. \<forall>other\<in>set O'. subnet_of s other = Inr False \<and> s \<noteq> other)"
proof -
  from addresses_exclude_guard [OF assms] have g: "subnets_of S' O' = Inr False" .
  from subnets_of_False [OF g] have
    n: "\<forall>s\<in>set S'. \<forall>other\<in>set O'. subnet_of s other = Inr False" .
  have "s \<noteq> other" if "s \<in> set S'" "other \<in> set O'" for s other
  proof
    assume "s = other"
    with n that subnet_of_refl [of s] show False by auto
  qed
  with g n show ?thesis by blast
qed

lemmas network_eval = subnet_of_def broadcast_address_def hostmask_def subnets_def address_exclude_def
  exclude_loop.simps exclude_each.simps addresses_exclude.simps list_remove_def

text \<open>
  The networks 10.0.0.0/28 and 10.0.0.0/32 less 10.0.0.0/30: the first pass splits the /28
  and leaves out the /32, whose place in the list the removal took; the second pass
  removes it.
\<close>

lemma addresses_exclude_example:
  "addresses_exclude
     [\<lparr>version = V4, network_address = 167772160, prefixlen = 28\<rparr>,
      \<lparr>version = V4, network_address = 167772160, prefixlen = 32\<rparr>]
     [\<lparr>version = V4, network_address = 167772160, prefixlen = 30\<rparr>]
   = Inr [\<lparr>version = V4, network_address = 167772168, prefixlen = 29\<rparr>,
          \<lparr>version = V4, network_address = 167772164, prefixlen = 30\<rparr>]"
  by (simp add: network_eval)

theorem addresses_exclude_no_subnet_witness:
  "addresses_exclude
     [\<lparr>version = V4, network_address = 167772160, prefixlen = 28\<rparr>,
      \<lparr>version = V4, network_address = 167772160, prefixlen = 32\<rparr>]
     [\<lparr>version = V4, network_address = 167772160, prefixlen = 30\<rparr>]
   = Inr [\<lparr>version = V4, network_address = 167772168, prefixlen = 29\<rparr>,
          \<lparr>version = V4, network_address = 167772164, prefixlen = 30\<rparr>] \<and>
   subnets_of
     [\<lparr>version = V4, network_address = 167772168, prefixlen = 29\<rparr>,
      \<lparr>version = V4, network_address = 167772164, prefixlen = 30\<rparr>]
     [\<lparr>version = V4, network_address = 167772160, prefixlen = 30\<rparr>] = Inr False \<and>
   subnet_of \<lparr>version = V4, network_address = 167772168, prefixlen = 29\<rparr>
     \<lparr>version = V4, network_address = 167772160, prefixlen = 30\<rparr> = Inr False \<and>
   subnet_of \<lparr>version = V4, network_address = 167772164, prefixlen = 30\<rparr>
     \<lparr>version = V4, network_address = 167772160, prefixlen = 30\<rparr> = Inr False"
  using addresses_exclude_no_subnet [OF addresses_exclude_example]
  by (simp add: addresses_exclude_example)

subsection \<open>Exclusion: no address is introduced\<close>

lemma broadcast_address_wf:
  assumes "wf_network n"
  shows "broadcast_address n = network_address n + hostmask n"
proof -
  let ?k = "max_prefixlen (version n) - prefixlen n"
  have "network_address n AND mask ?k = network_address n mod 2 ^ ?k"
    by (simp flip: take_bit_eq_mask add: take_bit_eq_mod)
  with assms have "network_address n AND hostmask n = 0"
    by (simp add: wf_network_def hostmask_def mask_eq_exp_minus_1)
  from disjunctive_add_eq_or [OF this] show ?thesis
    by (simp add: broadcast_address_def)
qed

lemma num_addresses_wf: "wf_network n \<Longrightarrow> num_addresses n = weight n"
  by (simp add: num_addresses_def broadcast_address_wf hostmask_def weight_def)

lemma subnets_wf:
  assumes "unpack2 (subnets n) = Inr (a, b)" and "wf_network n"
  shows "wf_network a" and "wf_network b"
    and "contains a x \<Longrightarrow> contains n x" and "contains b x \<Longrightarrow> contains n x"
proof -
  let ?m = "max_prefixlen (version n)"
  from unpack2_subnets [OF assms(1)] have lt: "prefixlen n < ?m"
    and a: "a = n\<lparr>prefixlen := prefixlen n + 1\<rparr>"
    and b: "b = n\<lparr>network_address := network_address n + (hostmask n + 1) div 2,
           prefixlen := prefixlen n + 1\<rparr>" by auto
  define k where "k = ?m - (prefixlen n + 1)"
  have k: "?m - prefixlen n = Suc k" using lt by (simp add: k_def)
  have half: "(hostmask n + 1) div 2 = 2 ^ k" by (simp add: hostmask_def k)
  from b half have b2: "b = n\<lparr>network_address := network_address n + 2 ^ k,
           prefixlen := prefixlen n + 1\<rparr>" by (simp only:)
  from assms(2) have dv: "2 ^ Suc k dvd network_address n" and bound: "network_address n < 2 ^ ?m"
    by (auto simp: wf_network_def k mod_eq_0_iff_dvd)
  then obtain q where q: "network_address n = 2 ^ Suc k * q" by (auto simp: dvd_def)
  have dk: "(2::nat) ^ k dvd network_address n" using q by simp
  show wa: "wf_network a" using lt bound dk
    by (simp add: wf_network_def a k_def mod_eq_0_iff_dvd)
  have "(2::nat) ^ ?m = 2 ^ Suc k * 2 ^ prefixlen n"
    using k lt by (metis le_add_diff_inverse2 less_imp_le power_add)
  with bound q have "q < 2 ^ prefixlen n" by simp
  then have "q + 1 \<le> 2 ^ prefixlen n" by simp
  then have "2 ^ Suc k * (q + 1) \<le> (2::nat) ^ Suc k * 2 ^ prefixlen n" by (rule mult_le_mono2)
  with \<open>(2::nat) ^ ?m = 2 ^ Suc k * 2 ^ prefixlen n\<close> q
  have top: "network_address n + 2 ^ Suc k \<le> 2 ^ ?m" by simp
  have "(2::nat) ^ k < 2 ^ Suc k" by simp
  with top have top2: "network_address n + 2 ^ k < 2 ^ ?m" by linarith
  show wb: "wf_network b" using lt top2 dk
    by (simp add: wf_network_def b2 k_def mod_eq_0_iff_dvd)
  have bn: "broadcast_address n = network_address n + (2 ^ Suc k - 1)"
    using broadcast_address_wf [OF assms(2)] by (simp add: hostmask_def k)
  have ba: "broadcast_address a = network_address n + (2 ^ k - 1)"
    using broadcast_address_wf [OF wa] by (simp add: hostmask_def a k_def)
  have bb: "broadcast_address b = network_address n + 2 ^ k + (2 ^ k - 1)"
    using broadcast_address_wf [OF wb] by (simp add: hostmask_def b2 k_def)
  have fa: "version a = version n" "network_address a = network_address n"
    by (simp_all add: a)
  have fb: "version b = version n" "network_address b = network_address n + 2 ^ k"
    by (simp_all add: b2)
  show "contains a x \<Longrightarrow> contains n x"
    by (cases x) (auto simp: contains_def bn ba fa)
  show "contains b x \<Longrightarrow> contains n x"
    by (cases x) (auto simp: contains_def bn bb fb)
qed


lemma exclude_loop_within:
  "exclude_loop s1 s2 other = Inr ys \<Longrightarrow> wf_network s1 \<Longrightarrow> wf_network s2 \<Longrightarrow>
     \<forall>y\<in>set ys. wf_network y \<and> (\<forall>x. contains y x \<longrightarrow> contains s1 x \<or> contains s2 x)"
proof (induction s1 s2 other arbitrary: ys rule: exclude_loop.induct)
  case (1 s1 s2 other)
  show ?case
  proof (cases "s1 \<noteq> other \<and> s2 \<noteq> other")
    case False
    with "1.prems"(1) have "ys = [s2] \<or> ys = [s1]"
      by (auto simp: exclude_loop.simps [of s1 s2 other] split: if_splits)
    with "1.prems"(2,3) show ?thesis by auto
  next
    case True
    note ne = this
    from "1.prems"(1) ne obtain in1 where in1: "subnet_of other s1 = Inr in1"
      by (auto simp: exclude_loop.simps [of s1 s2 other] split: sum.splits)
    show ?thesis
    proof (cases in1)
      case True
      from "1.prems"(1) ne in1 True obtain a b zs where
        ab: "unpack2 (subnets s1) = Inr (a, b)" and zs: "exclude_loop a b other = Inr zs" and ys: "ys = s2 # zs"
        by (auto simp: exclude_loop.simps [of s1 s2 other] split: sum.splits prod.splits)
      note sw = subnets_wf [OF ab "1.prems"(2)]
      from "1.IH"(1) [OF ne in1 True ab refl zs sw(1,2)]
      have "\<forall>y\<in>set zs. wf_network y \<and> (\<forall>x. contains y x \<longrightarrow> contains a x \<or> contains b x)" .
      with sw(3,4) have "\<forall>y\<in>set zs. wf_network y \<and> (\<forall>x. contains y x \<longrightarrow> contains s1 x)"
        by blast
      with ys "1.prems"(3) show ?thesis by auto
    next
      case False
      from "1.prems"(1) ne in1 False obtain in2 where in2: "subnet_of other s2 = Inr in2"
        by (auto simp: exclude_loop.simps [of s1 s2 other] split: sum.splits)
      from "1.prems"(1) ne in1 False in2 have in2t: in2
        by (auto simp: exclude_loop.simps [of s1 s2 other] split: sum.splits if_splits)
      from "1.prems"(1) ne in1 False in2 in2t obtain a b zs where
        ab: "unpack2 (subnets s2) = Inr (a, b)" and zs: "exclude_loop a b other = Inr zs" and ys: "ys = s1 # zs"
        by (auto simp: exclude_loop.simps [of s1 s2 other] split: sum.splits prod.splits)
      note sw = subnets_wf [OF ab "1.prems"(3)]
      from "1.IH"(2) [OF ne in1 False in2 in2t ab refl zs sw(1,2)]
      have "\<forall>y\<in>set zs. wf_network y \<and> (\<forall>x. contains y x \<longrightarrow> contains a x \<or> contains b x)" .
      with sw(3,4) have "\<forall>y\<in>set zs. wf_network y \<and> (\<forall>x. contains y x \<longrightarrow> contains s2 x)"
        by blast
      with ys "1.prems"(2) show ?thesis by auto
    qed
  qed
qed

lemma address_exclude_within:
  assumes "address_exclude s other = Inr ys" and "wf_network s"
  shows "\<forall>y\<in>set ys. wf_network y \<and> (\<forall>x. contains y x \<longrightarrow> contains s x)"
proof (cases "other = s")
  case True
  with assms(1) have "ys = []" by (auto simp: address_exclude_def split: if_splits sum.splits)
  then show ?thesis by simp
next
  case False
  with assms(1) obtain s1 s2 where ab: "unpack2 (subnets s) = Inr (s1, s2)"
    and ys: "exclude_loop s1 s2 other = Inr ys"
    by (auto simp: address_exclude_def split: if_splits sum.splits prod.splits)
  note sw = subnets_wf [OF ab assms(2)]
  from exclude_loop_within [OF ys sw(1,2)] sw(3,4) show ?thesis by blast
qed

lemma covered_append: "covered (xs @ ys) = covered xs \<union> covered ys"
  by (auto simp: covered_def)

lemma list_remove_set: "list_remove s xs = Inr ys \<Longrightarrow> s \<in> set xs \<and> set ys \<subseteq> set xs"
  using set_remove1_subset [of s xs] by (auto simp: list_remove_def split: if_splits)

lemma exclude_others_within:
  "exclude_others s others xs = Inr ys \<Longrightarrow> \<forall>n\<in>set xs. wf_network n \<Longrightarrow>
     (\<forall>n\<in>set ys. wf_network n) \<and> covered ys \<subseteq> covered xs"
proof (induction others arbitrary: xs)
  case Nil
  then show ?case by simp
next
  case (Cons other others)
  from Cons.prems(1) obtain in1 where in1: "subnet_of other s = Inr in1"
    by (auto split: sum.splits)
  show ?case
  proof (cases in1)
    case True
    from Cons.prems(1) in1 True obtain xs1 new where
      r: "list_remove s xs = Inr xs1" and n: "address_exclude s other = Inr new"
      and rest: "exclude_others s others (xs1 @ new) = Inr ys"
      by (auto split: sum.splits)
    from list_remove_set [OF r] have s: "s \<in> set xs" and sub: "set xs1 \<subseteq> set xs" by auto
    from s Cons.prems(2) have "wf_network s" by simp
    from address_exclude_within [OF n this] have
      new: "\<forall>y\<in>set new. wf_network y \<and> (\<forall>x. contains y x \<longrightarrow> contains s x)" .
    have wf1: "\<forall>n\<in>set (xs1 @ new). wf_network n" using sub Cons.prems(2) new by auto
    have "covered (xs1 @ new) \<subseteq> covered xs"
      using sub s new by (auto simp: covered_def)
    with Cons.IH [OF rest wf1] show ?thesis by blast
  next
    case False
    note f1 = this
    from Cons.prems(1) in1 False obtain in2 where in2: "subnet_of s other = Inr in2"
      by (auto split: sum.splits)
    show ?thesis
    proof (cases in2)
      case True
      from Cons.prems(1) in1 f1 in2 True obtain xs1 where
        r: "list_remove s xs = Inr xs1" and rest: "exclude_others s others xs1 = Inr ys"
        by (auto split: sum.splits)
      from list_remove_set [OF r] have sub: "set xs1 \<subseteq> set xs" by auto
      then have wf1: "\<forall>n\<in>set xs1. wf_network n" using Cons.prems(2) by auto
      have "covered xs1 \<subseteq> covered xs" using sub by (auto simp: covered_def)
      with Cons.IH [OF rest wf1] show ?thesis by blast
    next
      case False
      from Cons.prems(1) in1 f1 in2 False have rest: "exclude_others s others xs = Inr ys"
        by simp
      from Cons.IH [OF rest Cons.prems(2)] show ?thesis .
    qed
  qed
qed

lemma exclude_each_within:
  "exclude_each i others xs = Inr ys \<Longrightarrow> \<forall>n\<in>set xs. wf_network n \<Longrightarrow>
     (\<forall>n\<in>set ys. wf_network n) \<and> covered ys \<subseteq> covered xs"
proof (induction i others xs arbitrary: ys rule: exclude_each.induct)
  case (1 i others xs)
  show ?case
  proof (cases "i < length xs")
    case False
    with "1.prems" show ?thesis by (auto simp: exclude_each.simps [of i others xs])
  next
    case True
    with "1.prems"(1) obtain xs1 where
      inner: "exclude_others (xs ! i) others xs = Inr xs1" and rest: "exclude_each (i + 1) others xs1 = Inr ys"
      by (auto simp: exclude_each.simps [of i others xs] split: sum.splits)
    note w1 = exclude_others_within [OF inner "1.prems"(2)]
    from "1.IH" [OF True inner rest] w1 show ?thesis by blast
  qed
qed

lemma addresses_exclude_within:
  "addresses_exclude xs others = Inr ys \<Longrightarrow> \<forall>n\<in>set xs. wf_network n \<Longrightarrow>
     (\<forall>n\<in>set ys. wf_network n) \<and> covered ys \<subseteq> covered xs"
proof (induction xs others rule: addresses_exclude.induct)
  case (1 self others)
  from "1.prems"(1) obtain again where g: "subnets_of self others = Inr again"
    by (auto simp: addresses_exclude.simps [of self others] split: sum.splits)
  show ?case
  proof (cases again)
    case False
    with "1.prems" g show ?thesis by (auto simp: addresses_exclude.simps [of self others])
  next
    case True
    with "1.prems"(1) g obtain self1 where
      e: "exclude_each 0 others self = Inr self1" and r: "addresses_exclude self1 others = Inr ys"
      by (auto simp: addresses_exclude.simps [of self others] split: sum.splits)
    note w1 = exclude_each_within [OF e "1.prems"(2)]
    from "1.IH" [OF g True e r] w1 show ?thesis by blast
  qed
qed

lemma addresses_exclude_weight:
  "addresses_exclude xs others = Inr ys \<Longrightarrow> total_weight ys \<le> total_weight xs"
proof (induction xs others rule: addresses_exclude.induct)
  case (1 self others)
  from "1.prems"(1) obtain again where g: "subnets_of self others = Inr again"
    by (auto simp: addresses_exclude.simps [of self others] split: sum.splits)
  show ?case
  proof (cases again)
    case False
    with "1.prems" g show ?thesis by (auto simp: addresses_exclude.simps [of self others])
  next
    case True
    with "1.prems"(1) g obtain self1 where
      e: "exclude_each 0 others self = Inr self1" and r: "addresses_exclude self1 others = Inr ys"
      by (auto simp: addresses_exclude.simps [of self others] split: sum.splits)
    from "1.IH" [OF g True e r] exclude_each_weight [OF e] show ?thesis by simp
  qed
qed

lemma IPNetworks_len_wf: "\<forall>n\<in>set xs. wf_network n \<Longrightarrow> IPNetworks_len xs = total_weight xs"
  by (induction xs) (simp_all add: IPNetworks_len_def total_weight_def num_addresses_wf)

lemma finite_covered: "finite (covered ns)"
proof -
  have "covered ns \<subseteq> (\<Union>n\<in>set ns. IPAddress (version n) ` {network_address n .. broadcast_address n})"
  proof
    fix a assume "a \<in> covered ns"
    then obtain n where n: "n \<in> set ns" "contains n a" by (auto simp: covered_def)
    then have "a \<in> IPAddress (version n) ` {network_address n .. broadcast_address n}"
      by (cases a) (auto simp: contains_def)
    with n(1) show "a \<in> (\<Union>n\<in>set ns. IPAddress (version n) ` {network_address n .. broadcast_address n})"
      by blast
  qed
  then show ?thesis by (rule finite_subset) simp
qed

text \<open>
  Claim C10: exclusion introduces no address. When \<^verbatim>\<open>S.addresses_exclude(O)\<close> returns,
  every address that a member of \<open>S\<close> covers then was covered by a member of \<open>S\<close>
  before, so neither the number of covered addresses nor \<^verbatim>\<open>S.len()\<close> has grown.
\<close>

theorem addresses_exclude_covered:
  assumes "\<forall>n\<in>set S. wf_network n" and "addresses_exclude S O' = Inr S'"
  shows "covered S' \<subseteq> covered S \<and> card (covered S') \<le> card (covered S) \<and>
    IPNetworks_len S' \<le> IPNetworks_len S"
proof (intro conjI)
  from addresses_exclude_within [OF assms(2,1)] have
    wf': "\<forall>n\<in>set S'. wf_network n" and sub: "covered S' \<subseteq> covered S" by auto
  show "covered S' \<subseteq> covered S" by (rule sub)
  show "card (covered S') \<le> card (covered S)"
    using sub finite_covered by (rule card_mono [rotated])
  show "IPNetworks_len S' \<le> IPNetworks_len S"
    using addresses_exclude_weight [OF assms(2)] IPNetworks_len_wf [OF assms(1)] IPNetworks_len_wf [OF wf']
    by simp
qed

theorem addresses_exclude_covered_witness:
  "covered [\<lparr>version = V4, network_address = 167772168, prefixlen = 29\<rparr>,
            \<lparr>version = V4, network_address = 167772164, prefixlen = 30\<rparr>]
     \<subseteq> covered [\<lparr>version = V4, network_address = 167772160, prefixlen = 28\<rparr>,
                   \<lparr>version = V4, network_address = 167772160, prefixlen = 32\<rparr>] \<and>
   card (covered [\<lparr>version = V4, network_address = 167772168, prefixlen = 29\<rparr>,
                  \<lparr>version = V4, network_address = 167772164, prefixlen = 30\<rparr>])
     \<le> card (covered [\<lparr>version = V4, network_address = 167772160, prefixlen = 28\<rparr>,
                       \<lparr>version = V4, network_address = 167772160, prefixlen = 32\<rparr>]) \<and>
   IPNetworks_len [\<lparr>version = V4, network_address = 167772168, prefixlen = 29\<rparr>,
                   \<lparr>version = V4, network_address = 167772164, prefixlen = 30\<rparr>]
     \<le> IPNetworks_len [\<lparr>version = V4, network_address = 167772160, prefixlen = 28\<rparr>,
                        \<lparr>version = V4, network_address = 167772160, prefixlen = 32\<rparr>]"
proof -
  have "\<forall>n\<in>set [\<lparr>version = V4, network_address = 167772160, prefixlen = 28\<rparr>,
      \<lparr>version = V4, network_address = 167772160, prefixlen = 32\<rparr>]. wf_network n"
    by (simp add: wf_network_def)
  from addresses_exclude_covered [OF this addresses_exclude_example] show ?thesis .
qed

subsection \<open>Sampling: the weighted walk of \<^verbatim>\<open>rand\<close>\<close>

lemma MACRange_len_ok: "range_mask m \<le> 48 \<Longrightarrow> MACRange_len m = Inr (MACRange_size m)"
  by (simp add: MACRange_len_def MACRange_size_def)

lemma collect_MACRange_len:
  "\<forall>m\<in>set self. range_mask m \<le> 48 \<Longrightarrow> collect (map MACRange_len self) = Inr (map MACRange_size self)"
  by (induction self) (simp_all add: MACRange_len_ok)

lemma MACRanges_len_ok:
  "\<forall>m\<in>set self. range_mask m \<le> 48 \<Longrightarrow> MACRanges_len self = Inr (sum_list (map MACRange_size self))"
  by (simp add: MACRanges_len_def collect_MACRange_len)

lemma MACRanges_walk_split:
  "\<forall>m\<in>set before. range_mask m \<le> 48 \<Longrightarrow> range_mask m \<le> 48 \<Longrightarrow> k < MACRange_size m \<Longrightarrow>
     MACRanges_walk (before @ m # after) (sum_list (map MACRange_size before) + k)
       = Inr (Some (range_mac m + int k))"
  by (induction before) (simp_all add: MACRange_len_ok)

lemma MACRanges_offset_split:
  "offset < sum_list (map MACRange_size self) \<Longrightarrow>
     \<exists>before m after k. self = before @ m # after \<and> k < MACRange_size m \<and>
        offset = sum_list (map MACRange_size before) + k"
proof (induction self arbitrary: offset)
  case Nil
  then show ?case by simp
next
  case (Cons m self)
  show ?case
  proof (cases "offset < MACRange_size m")
    case True
    then have "m # self = [] @ m # self \<and> offset < MACRange_size m \<and>
        offset = sum_list (map MACRange_size []) + offset" by simp
    then show ?thesis by blast
  next
    case False
    with Cons.prems have "offset - MACRange_size m < sum_list (map MACRange_size self)" by simp
    from Cons.IH [OF this] obtain before m' after k where
      s: "self = before @ m' # after" and k: "k < MACRange_size m'"
      and o: "offset - MACRange_size m = sum_list (map MACRange_size before) + k" by blast
    from s k o False have "m # self = (m # before) @ m' # after \<and> k < MACRange_size m' \<and>
        offset = sum_list (map MACRange_size (m # before)) + k" by simp
    then show ?thesis by blast
  qed
qed

lemma randrange_pos: "0 < n \<Longrightarrow> randrange r n = Inr (r mod n)"
  by (simp add: randrange_def)

lemma MACRange_size_pos: "0 < MACRange_size m"
  by (simp add: MACRange_size_def)

lemma sum_list_pos_nonempty:
  "self \<noteq> [] \<Longrightarrow> (\<And>m. 0 < f m) \<Longrightarrow> 0 < sum_list (map f self)"
  for f :: "'a \<Rightarrow> nat"
  by (cases self) (simp_all add: add_pos_nonneg)

lemma MACRanges_rand_member:
  assumes "self \<noteq> []" and "\<forall>m\<in>set self. range_mask m \<le> 48"
  shows "\<exists>before m after k. self = before @ m # after \<and> k < MACRange_size m \<and>
      r mod sum_list (map MACRange_size self) = sum_list (map MACRange_size before) + k \<and>
      MACRanges_rand r self = Inr (Some (range_mac m + int k))"
proof -
  let ?n = "sum_list (map MACRange_size self)"
  have pos: "0 < ?n" using assms(1) by (rule sum_list_pos_nonempty) (rule MACRange_size_pos)
  then have "r mod ?n < ?n" by simp
  from MACRanges_offset_split [OF this] obtain before m after k where
    s: "self = before @ m # after" and k: "k < MACRange_size m"
    and o: "r mod ?n = sum_list (map MACRange_size before) + k" by blast
  from s assms(2) have "\<forall>m\<in>set before. range_mask m \<le> 48" "range_mask m \<le> 48" by auto
  from MACRanges_walk_split [OF this k, of after] s o
  have "MACRanges_walk self (r mod ?n) = Inr (Some (range_mac m + int k))" by simp
  then have "MACRanges_rand r self = Inr (Some (range_mac m + int k))"
    by (simp add: MACRanges_rand_def MACRanges_len_ok [OF assms(2)] randrange_pos [OF pos])
  with s k o show ?thesis by blast
qed


lemma wf_network_top:
  assumes "wf_network n"
  shows "network_address n + weight n \<le> 2 ^ max_prefixlen (version n)"
proof -
  let ?m = "max_prefixlen (version n)"
  let ?j = "?m - prefixlen n"
  from assms have le: "prefixlen n \<le> ?m" and bound: "network_address n < 2 ^ ?m"
    and dv: "2 ^ ?j dvd network_address n"
    by (auto simp: wf_network_def mod_eq_0_iff_dvd)
  from dv obtain q where q: "network_address n = 2 ^ ?j * q" by (auto simp: dvd_def)
  have pw: "(2::nat) ^ ?m = 2 ^ ?j * 2 ^ prefixlen n"
    using le by (metis le_add_diff_inverse2 power_add)
  with bound q have "q < 2 ^ prefixlen n" by simp
  then have "q + 1 \<le> 2 ^ prefixlen n" by simp
  then have "2 ^ ?j * (q + 1) \<le> (2::nat) ^ ?j * 2 ^ prefixlen n" by (rule mult_le_mono2)
  with pw q show ?thesis by (simp add: weight_def)
qed

lemma address_add_ok:
  assumes "wf_network n" and "k < num_addresses n"
  shows "address_add n k = Inr (IPAddress (version n) (network_address n + k))"
    and "contains n (IPAddress (version n) (network_address n + k))"
proof -
  from assms have k: "k < weight n" by (simp add: num_addresses_wf)
  with wf_network_top [OF assms(1)] show "address_add n k = Inr (IPAddress (version n) (network_address n + k))"
    by (simp add: address_add_def)
  from k show "contains n (IPAddress (version n) (network_address n + k))"
    by (simp add: contains_def broadcast_address_wf [OF assms(1)] hostmask_def weight_def)
qed

lemma IPNetworks_walk_split:
  "wf_network n \<Longrightarrow> k < num_addresses n \<Longrightarrow>
     IPNetworks_walk (before @ n # after) (IPNetworks_len before + k)
       = Inr (Some (IPAddress (version n) (network_address n + k)))"
  by (induction before) (simp_all add: address_add_ok IPNetworks_len_def)

lemma IPNetworks_offset_split:
  "offset < IPNetworks_len self \<Longrightarrow>
     \<exists>before n after k. self = before @ n # after \<and> k < num_addresses n \<and>
        offset = IPNetworks_len before + k"
proof (induction self arbitrary: offset)
  case Nil
  then show ?case by (simp add: IPNetworks_len_def)
next
  case (Cons m self)
  show ?case
  proof (cases "offset < num_addresses m")
    case True
    then have "m # self = [] @ m # self \<and> offset < num_addresses m \<and>
        offset = IPNetworks_len [] + offset" by (simp add: IPNetworks_len_def)
    then show ?thesis by blast
  next
    case False
    with Cons.prems have "offset - num_addresses m < IPNetworks_len self"
      by (simp add: IPNetworks_len_def)
    from Cons.IH [OF this] obtain before m' after k where
      s: "self = before @ m' # after" and k: "k < num_addresses m'"
      and o: "offset - num_addresses m = IPNetworks_len before + k" by blast
    from s k o False have "m # self = (m # before) @ m' # after \<and> k < num_addresses m' \<and>
        offset = IPNetworks_len (m # before) + k" by (simp add: IPNetworks_len_def)
    then show ?thesis by blast
  qed
qed

lemma num_addresses_pos: "0 < num_addresses n"
  by (simp add: num_addresses_def)

lemma IPNetworks_rand_member:
  assumes "self \<noteq> []" and "\<forall>n\<in>set self. wf_network n"
  shows "\<exists>before n after k. self = before @ n # after \<and> k < num_addresses n \<and>
      r mod IPNetworks_len self = IPNetworks_len before + k \<and>
      IPNetworks_rand r self = Inr (Some (IPAddress (version n) (network_address n + k))) \<and>
      contains n (IPAddress (version n) (network_address n + k))"
proof -
  let ?n = "IPNetworks_len self"
  have pos: "0 < ?n" unfolding IPNetworks_len_def
    using assms(1) by (rule sum_list_pos_nonempty) (rule num_addresses_pos)
  then have "r mod ?n < ?n" by simp
  from IPNetworks_offset_split [OF this] obtain before n after k where
    s: "self = before @ n # after" and k: "k < num_addresses n"
    and o: "r mod ?n = IPNetworks_len before + k" by blast
  from s assms(2) have wf: "wf_network n" by auto
  from IPNetworks_walk_split [OF wf k, of before after] s o
  have "IPNetworks_walk self (r mod ?n) = Inr (Some (IPAddress (version n) (network_address n + k)))" by simp
  then have "IPNetworks_rand r self = Inr (Some (IPAddress (version n) (network_address n + k)))"
    by (simp add: IPNetworks_rand_def randrange_pos [OF pos])
  with s k o address_add_ok(2) [OF wf k] show ?thesis by blast
qed

text \<open>The constructor leaves a mask of at most 48 bits.\<close>

lemma MACRange_init_mask: "MACRange_init uni s = Inr m \<Longrightarrow> range_mask m \<le> 48"
  by (auto simp: MACRange_init_def split: option.splits sum.splits if_splits prod.splits)

text \<open>
  Claim C2: on a non-empty list, \<^verbatim>\<open>rand\<close> draws an offset below the total length and
  walks the members in order, taking each member's length off the offset, until the offset
  falls inside a member; it returns that member's base plus the offset that is left. For
  \<^verbatim>\<open>MACRanges\<close> (masks at most 48, as the constructor leaves them) the total length is
  the sum of the members' \<open>2 ^ (48 - mask)\<close>, for \<^verbatim>\<open>IPNetworks\<close> (networks as the
  library builds them) the sum of the members' \<^verbatim>\<open>num_addresses\<close>. The list splits as
  \<open>before @ m # after\<close> with the offset drawn equal to the total length of \<open>before\<close>
  plus some \<open>k\<close> below the length of \<open>m\<close>, and the result is \<open>m\<close>'s base plus
  \<open>k\<close>, an element of \<open>m\<close>. So each member receives as many of the offsets as it has
  addresses. The distribution of the draw itself is the generator's and is not modelled.
\<close>

theorem rand_weighted_walk:
  "(macs \<noteq> [] \<and> (\<forall>m\<in>set macs. range_mask m \<le> 48) \<longrightarrow>
      (\<exists>before m after k. macs = before @ m # after \<and> k < MACRange_size m \<and>
         r mod sum_list (map MACRange_size macs) = sum_list (map MACRange_size before) + k \<and>
         MACRanges_rand r macs = Inr (Some (range_mac m + int k)))) \<and>
   (nets \<noteq> [] \<and> (\<forall>n\<in>set nets. wf_network n) \<longrightarrow>
      (\<exists>before n after k. nets = before @ n # after \<and> k < num_addresses n \<and>
         r mod sum_list (map num_addresses nets) = sum_list (map num_addresses before) + k \<and>
         IPNetworks_rand r nets = Inr (Some (IPAddress (version n) (network_address n + k))) \<and>
         contains n (IPAddress (version n) (network_address n + k))))"
  using MACRanges_rand_member [of macs r] IPNetworks_rand_member [of nets r]
  unfolding IPNetworks_len_def by blast

text \<open>
  Two ranges of 256 MACs and the networks 10.0.0.8/29 and 10.0.0.4/30 (8 and 4 addresses),
  with the raw number 298: the offsets are 298 and 10, either falls in the second member,
  and the results are 03:00:00:00:00:2a and 10.0.0.6.
\<close>

theorem rand_weighted_walk_witness:
  "(\<exists>before m after k.
      [\<lparr>range_mask = 40, range_mac = 0x020000000000\<rparr>,
       \<lparr>range_mask = 40, range_mac = 0x030000000000\<rparr>] = before @ m # after \<and>
      k < MACRange_size m \<and>
      298 mod sum_list (map MACRange_size
        [\<lparr>range_mask = 40, range_mac = 0x020000000000\<rparr>,
         \<lparr>range_mask = 40, range_mac = 0x030000000000\<rparr>])
        = sum_list (map MACRange_size before) + k \<and>
      MACRanges_rand 298
        [\<lparr>range_mask = 40, range_mac = 0x020000000000\<rparr>,
         \<lparr>range_mask = 40, range_mac = 0x030000000000\<rparr>]
        = Inr (Some (range_mac m + int k))) \<and>
   (\<exists>before n after k.
      [\<lparr>version = V4, network_address = 167772168, prefixlen = 29\<rparr>,
       \<lparr>version = V4, network_address = 167772164, prefixlen = 30\<rparr>] = before @ n # after \<and>
      k < num_addresses n \<and>
      298 mod sum_list (map num_addresses
        [\<lparr>version = V4, network_address = 167772168, prefixlen = 29\<rparr>,
         \<lparr>version = V4, network_address = 167772164, prefixlen = 30\<rparr>])
        = sum_list (map num_addresses before) + k \<and>
      IPNetworks_rand 298
        [\<lparr>version = V4, network_address = 167772168, prefixlen = 29\<rparr>,
         \<lparr>version = V4, network_address = 167772164, prefixlen = 30\<rparr>]
        = Inr (Some (IPAddress (version n) (network_address n + k))) \<and>
      contains n (IPAddress (version n) (network_address n + k))) \<and>
   298 mod sum_list (map MACRange_size
     [\<lparr>range_mask = 40, range_mac = 0x020000000000\<rparr>,
      \<lparr>range_mask = 40, range_mac = 0x030000000000\<rparr>]) = 298 \<and>
   MACRanges_rand 298
     [\<lparr>range_mask = 40, range_mac = 0x020000000000\<rparr>,
      \<lparr>range_mask = 40, range_mac = 0x030000000000\<rparr>] = Inr (Some 0x03000000002a) \<and>
   298 mod sum_list (map num_addresses
     [\<lparr>version = V4, network_address = 167772168, prefixlen = 29\<rparr>,
      \<lparr>version = V4, network_address = 167772164, prefixlen = 30\<rparr>]) = 10 \<and>
   IPNetworks_rand 298
     [\<lparr>version = V4, network_address = 167772168, prefixlen = 29\<rparr>,
      \<lparr>version = V4, network_address = 167772164, prefixlen = 30\<rparr>]
     = Inr (Some (IPAddress V4 167772166))"
proof -
  have m: "\<forall>m\<in>set [\<lparr>range_mask = 40, range_mac = 0x020000000000\<rparr>,
      \<lparr>range_mask = 40, range_mac = 0x030000000000\<rparr>]. range_mask m \<le> 48"
    by simp
  have n: "\<forall>n\<in>set [\<lparr>version = V4, network_address = 167772168, prefixlen = 29\<rparr>,
      \<lparr>version = V4, network_address = 167772164, prefixlen = 30\<rparr>]. wf_network n"
    by (simp add: wf_network_def)
  have s1: "298 mod sum_list (map MACRange_size
     [\<lparr>range_mask = 40, range_mac = 0x020000000000\<rparr>,
      \<lparr>range_mask = 40, range_mac = 0x030000000000\<rparr>]) = 298"
    by (simp add: MACRange_size_def)
  have e1: "MACRanges_rand 298
     [\<lparr>range_mask = 40, range_mac = 0x020000000000\<rparr>,
      \<lparr>range_mask = 40, range_mac = 0x030000000000\<rparr>] = Inr (Some 0x03000000002a)"
    by (simp add: MACRanges_rand_def MACRanges_len_def MACRange_len_def randrange_def)
  have s2: "298 mod sum_list (map num_addresses
     [\<lparr>version = V4, network_address = 167772168, prefixlen = 29\<rparr>,
      \<lparr>version = V4, network_address = 167772164, prefixlen = 30\<rparr>]) = 10"
    by (simp add: num_addresses_def broadcast_address_def hostmask_def)
  have e2: "IPNetworks_rand 298
     [\<lparr>version = V4, network_address = 167772168, prefixlen = 29\<rparr>,
      \<lparr>version = V4, network_address = 167772164, prefixlen = 30\<rparr>]
     = Inr (Some (IPAddress V4 167772166))"
    by (simp add: IPNetworks_rand_def IPNetworks_len_def num_addresses_def broadcast_address_def
        hostmask_def randrange_def address_add_def)
  from rand_weighted_walk
    [of "[\<lparr>range_mask = 40, range_mac = 0x020000000000\<rparr>,
          \<lparr>range_mask = 40, range_mac = 0x030000000000\<rparr>]" 298
        "[\<lparr>version = V4, network_address = 167772168, prefixlen = 29\<rparr>,
          \<lparr>version = V4, network_address = 167772164, prefixlen = 30\<rparr>]"] m n
  have "(\<exists>before m after k.
      [\<lparr>range_mask = 40, range_mac = 0x020000000000\<rparr>,
       \<lparr>range_mask = 40, range_mac = 0x030000000000\<rparr>] = before @ m # after \<and>
      k < MACRange_size m \<and>
      298 mod sum_list (map MACRange_size
        [\<lparr>range_mask = 40, range_mac = 0x020000000000\<rparr>,
         \<lparr>range_mask = 40, range_mac = 0x030000000000\<rparr>])
        = sum_list (map MACRange_size before) + k \<and>
      MACRanges_rand 298
        [\<lparr>range_mask = 40, range_mac = 0x020000000000\<rparr>,
         \<lparr>range_mask = 40, range_mac = 0x030000000000\<rparr>]
        = Inr (Some (range_mac m + int k))) \<and>
   (\<exists>before n after k.
      [\<lparr>version = V4, network_address = 167772168, prefixlen = 29\<rparr>,
       \<lparr>version = V4, network_address = 167772164, prefixlen = 30\<rparr>] = before @ n # after \<and>
      k < num_addresses n \<and>
      298 mod sum_list (map num_addresses
        [\<lparr>version = V4, network_address = 167772168, prefixlen = 29\<rparr>,
         \<lparr>version = V4, network_address = 167772164, prefixlen = 30\<rparr>])
        = sum_list (map num_addresses before) + k \<and>
      IPNetworks_rand 298
        [\<lparr>version = V4, network_address = 167772168, prefixlen = 29\<rparr>,
         \<lparr>version = V4, network_address = 167772164, prefixlen = 30\<rparr>]
        = Inr (Some (IPAddress (version n) (network_address n + k))) \<and>
      contains n (IPAddress (version n) (network_address n + k)))"
    by (simp only: list.distinct not_False_eq_True simp_thms)
  with s1 e1 s2 e2 show ?thesis by (intro conjI) blast+
qed

subsection \<open>One pass of the scheduling loop\<close>

lemma py_str_text:
  assumes "\<forall>v. mac = Some v \<longrightarrow> 0 \<le> v \<and> v < 2 ^ 48"
  shows "py_str mac = Inr (mac_text mac)"
proof (cases mac)
  case None
  then show ?thesis by (simp add: mac_text_def)
next
  case (Some v)
  with assms have "0 \<le> v" "v < 256 ^ 6" by simp_all
  then have "\<exists>text. MAC_str v = Inr text" by (simp add: MAC_str_def to_bytes_def)
  with Some show ?thesis by (auto simp: mac_text_def)
qed

lemma spoof_hosts_calls:
  "py_str mac = Inr text \<Longrightarrow>
     spoof_hosts hs address mac w = (None, w @ map (\<lambda>host. Send host address text) hs)"
  by (induction hs arbitrary: w) (simp_all add: spoof_def)

lemma spoof_targets_calls:
  "py_str mac = Inr text \<Longrightarrow>
     spoof_targets targets address mac w =
       (None, w @ concat (map (\<lambda>target. map (\<lambda>host. Send host address text) (hosts target)) targets))"
  by (induction targets arbitrary: w) (simp_all add: spoof_hosts_calls)

lemma spoof_pass_calls:
  "all_48_bit spoofed \<Longrightarrow> spoof_pass spoofed targets w = (None, w @ pass_calls spoofed targets)"
proof (induction spoofed arbitrary: w)
  case Nil
  then show ?case by (simp add: pass_calls_def)
next
  case (Cons entry spoofed)
  obtain address mac where entry: "entry = (address, mac)" by (cases entry)
  from Cons.prems entry have "py_str mac = Inr (mac_text mac)" and rest: "all_48_bit spoofed"
    by (auto simp: all_48_bit_def intro: py_str_text)
  from spoof_targets_calls [OF this(1)] Cons.IH [OF rest] entry show ?case
    by (simp add: pass_calls_def)
qed

lemma length_pass_calls:
  "length (pass_calls spoofed targets) = length spoofed * sum_list (map (\<lambda>target. length (hosts target)) targets)"
proof -
  have inner: "length (concat (map (\<lambda>target. map (f target) (hosts target)) targets))
      = sum_list (map (\<lambda>target. length (hosts target)) targets)" for f :: "ip_network \<Rightarrow> ip_address \<Rightarrow> event"
    by (induction targets) simp_all
  show ?thesis
    by (induction spoofed) (auto simp: pass_calls_def inner)
qed

text \<open>
  Claim C5: one pass hands \<^verbatim>\<open>srp\<close> exactly one frame for every triple of a table
  entry, a target network and a host that network enumerates, in nested order: table
  entries outermost in insertion order, target networks in the middle, hosts innermost.
  The number of frames is the number of entries times the number of hosts of all targets.
  The MACs of the table are 48-bit values, as they are in every table the script builds; on
  any other \<^verbatim>\<open>MAC.__str__\<close> raises and the pass stops.
\<close>

theorem spoof_pass_sends:
  assumes "all_48_bit spoofed"
  shows "spoof_pass spoofed targets w = (None, w @ pass_calls spoofed targets) \<and>
    length (pass_calls spoofed targets)
      = length spoofed * sum_list (map (\<lambda>target. length (hosts target)) targets)"
  using spoof_pass_calls [OF assms] length_pass_calls by simp

lemma hosts_example:
  "hosts \<lparr>version = V4, network_address = 167772160, prefixlen = 30\<rparr>
     = [IPAddress V4 167772161, IPAddress V4 167772162]"
  by (simp add: hosts_def broadcast_address_def hostmask_def upt_rec_numeral)

lemma MAC_str_examples:
  "MAC_str 0x020000000001 = Inr ''2:0:0:0:0:1''" "MAC_str 0x0200000000ff = Inr ''2:0:0:0:0:ff''"
  by (simp_all add: MAC_str_def to_bytes_def bytes_big_numeral format_x.simps hex_digit_def)

lemma pass_calls_example:
  "pass_calls [(IPAddress V4 167772165, Some 0x020000000001), (IPAddress V4 167772169, Some 0x0200000000ff)]
      [\<lparr>version = V4, network_address = 167772160, prefixlen = 30\<rparr>]
   = [Send (IPAddress V4 167772161) (IPAddress V4 167772165) ''2:0:0:0:0:1'',
      Send (IPAddress V4 167772162) (IPAddress V4 167772165) ''2:0:0:0:0:1'',
      Send (IPAddress V4 167772161) (IPAddress V4 167772169) ''2:0:0:0:0:ff'',
      Send (IPAddress V4 167772162) (IPAddress V4 167772169) ''2:0:0:0:0:ff'']"
  by (simp add: pass_calls_def hosts_example mac_text_def MAC_str_examples)

theorem spoof_pass_sends_witness:
  "spoof_pass [(IPAddress V4 167772165, Some 0x020000000001), (IPAddress V4 167772169, Some 0x0200000000ff)]
      [\<lparr>version = V4, network_address = 167772160, prefixlen = 30\<rparr>] []
   = (None,
      [Send (IPAddress V4 167772161) (IPAddress V4 167772165) ''2:0:0:0:0:1'',
       Send (IPAddress V4 167772162) (IPAddress V4 167772165) ''2:0:0:0:0:1'',
       Send (IPAddress V4 167772161) (IPAddress V4 167772169) ''2:0:0:0:0:ff'',
       Send (IPAddress V4 167772162) (IPAddress V4 167772169) ''2:0:0:0:0:ff'']) \<and>
   length (pass_calls [(IPAddress V4 167772165, Some 0x020000000001), (IPAddress V4 167772169, Some 0x0200000000ff)]
      [\<lparr>version = V4, network_address = 167772160, prefixlen = 30\<rparr>]) = 4"
proof -
  have "all_48_bit [(IPAddress V4 167772165, Some 0x020000000001), (IPAddress V4 167772169, Some 0x0200000000ff)]"
    by (simp add: all_48_bit_def)
  from spoof_pass_sends [OF this, of "[\<lparr>version = V4, network_address = 167772160, prefixlen = 30\<rparr>]" "[]"]
  show ?thesis by (simp add: pass_calls_example hosts_example)
qed

subsection \<open>The scheduling loop\<close>

text \<open>
  With \<^verbatim>\<open>seconds\<close> unset the loop makes exactly one pass and ends, without a call of
  \<^verbatim>\<open>sleep\<close>. With a positive number of seconds that \<^verbatim>\<open>sleep\<close> accepts, every
  pass is followed by a sleep of that many seconds and the next pass: whatever the number of
  passes it is given, the loop is still running after them.
\<close>

lemma scheduler_unset:
  assumes "all_48_bit spoofed"
  shows "scheduler (Suc fuel) spoofed targets None w = (Finished, w @ pass_calls spoofed targets)"
  by (simp add: spoof_pass_calls [OF assms])

lemma sleep_accepted: "0 < s \<Longrightarrow> s \<le> 9223372036 \<Longrightarrow> sleep s w = (None, w @ [Sleep s])"
  by (simp add: sleep_def)

lemma scheduler_repeats:
  assumes "all_48_bit spoofed" and "0 < s" and "s \<le> 9223372036"
  shows "scheduler fuel spoofed targets (Some s) w
    = (Running, w @ concat (replicate fuel (pass_calls spoofed targets @ [Sleep s])))"
  using assms(2)
  by (induction fuel arbitrary: w)
    (simp_all add: spoof_pass_calls [OF assms(1)] sleep_accepted [OF assms(2,3)])

lemma scheduler_numeral:
  "scheduler (numeral k) spoofed targets seconds w =
     (case spoof_pass spoofed targets w of
        (Some e, w1) \<Rightarrow> (Raised e, w1)
      | (None, w1) \<Rightarrow>
          (case seconds of
             None \<Rightarrow> (Finished, w1)
           | Some s \<Rightarrow>
               if s \<noteq> 0 then
                 (case sleep s w1 of
                    (Some e, w2) \<Rightarrow> (Raised e, w2)
                  | (None, w2) \<Rightarrow> scheduler (pred_numeral k) spoofed targets seconds w2)
               else (Finished, w1)))"
  by (simp only: numeral_eq_Suc scheduler.simps)

text \<open>
  Claim C6 says that with a repeat interval configured the loop blocks for that many seconds
  after each pass and repeats the pass indefinitely. On the code, with
  \<^verbatim>\<open>--seconds 0\<close> an interval is configured, and the loop ends after the first pass
  without a call of \<^verbatim>\<open>sleep\<close>: \<^verbatim>\<open>if args.seconds\<close> is false on zero. The help of
  the option reads \<^verbatim>\<open>Repeat the spoofing every N seconds (default does not repeat)\<close>.
  Here with one table entry, the target 10.0.0.0/30 and fuel for three passes.
\<close>

theorem scheduler_zero_seconds_finishes:
  "scheduler 3 [(IPAddress V4 167772165, Some 0x020000000001)]
      [\<lparr>version = V4, network_address = 167772160, prefixlen = 30\<rparr>] (Some 0) []
   = (Finished,
      [Send (IPAddress V4 167772161) (IPAddress V4 167772165) ''2:0:0:0:0:1'',
       Send (IPAddress V4 167772162) (IPAddress V4 167772165) ''2:0:0:0:0:1''])"
  by (simp add: scheduler_numeral hosts_example spoof_def MAC_str_examples)

text \<open>
  Nor does the loop repeat on an interval that \<^verbatim>\<open>sleep\<close> refuses: after the first pass
  the exception ends the script.
\<close>

lemma scheduler_sleep_raises:
  "scheduler 3 [(IPAddress V4 167772165, Some 0x020000000001)]
      [\<lparr>version = V4, network_address = 167772160, prefixlen = 30\<rparr>] (Some 10000000000) []
   = (Raised OverflowError,
      [Send (IPAddress V4 167772161) (IPAddress V4 167772165) ''2:0:0:0:0:1'',
       Send (IPAddress V4 167772162) (IPAddress V4 167772165) ''2:0:0:0:0:1''])"
  "scheduler 3 [(IPAddress V4 167772165, Some 0x020000000001)]
      [\<lparr>version = V4, network_address = 167772160, prefixlen = 30\<rparr>] (Some (- 5)) []
   = (Raised ValueError,
      [Send (IPAddress V4 167772161) (IPAddress V4 167772165) ''2:0:0:0:0:1'',
       Send (IPAddress V4 167772162) (IPAddress V4 167772165) ''2:0:0:0:0:1''])"
  by (simp_all add: scheduler_numeral hosts_example spoof_def MAC_str_examples sleep_def)

text \<open>With five seconds the loop is running after the two passes it is given.\<close>

lemma scheduler_repeats_example:
  "scheduler 2 [(IPAddress V4 167772165, Some 0x020000000001)]
      [\<lparr>version = V4, network_address = 167772160, prefixlen = 30\<rparr>] (Some 5) []
   = (Running,
      [Send (IPAddress V4 167772161) (IPAddress V4 167772165) ''2:0:0:0:0:1'',
       Send (IPAddress V4 167772162) (IPAddress V4 167772165) ''2:0:0:0:0:1'',
       Sleep 5,
       Send (IPAddress V4 167772161) (IPAddress V4 167772165) ''2:0:0:0:0:1'',
       Send (IPAddress V4 167772162) (IPAddress V4 167772165) ''2:0:0:0:0:1'',
       Sleep 5])"
  by (simp add: scheduler_numeral hosts_example spoof_def MAC_str_examples sleep_def)

subsection \<open>The spoof table and the MAC text on concrete inputs\<close>

lemma match_pairs_5: "match_pairs 5 s = match_pairs (Suc (Suc (Suc (Suc (Suc 0))))) s"
  by (simp add: eval_nat_numeral)

lemmas MACRange_eval = re_search_def match_tail_def at_end_def cp_is_hex_def cp_is_sep_def
  is_digit_def decimal_def ascii_def match_pairs_5

lemma map_char_of_ascii: "map char_of (ascii s) = s"
  by (simp add: ascii_def comp_def)

lemma MAC_parse_example: "MAC_parse ''02:00:00:00:00:00'' = Inr 0x020000000000"
  by (simp add: MAC_parse_def re_split_def is_hex_def int16_def hex_val_def from_bytes_def)

lemma MACRange_init_example:
  "MACRange_init uni (ascii ''02:00:00:00:00:00/40'')
     = Inr \<lparr>range_mask = 40, range_mac = 0x020000000000\<rparr>"
proof -
  have "re_search uni (ascii ''02:00:00:00:00:00/40'')
      = Some (ascii ''02:00:00:00:00:00'', Some (ascii ''40''))"
    by (simp add: MACRange_eval)
  moreover have "py_int uni (ascii ''40'') = Inr 40"
    by (simp add: py_int_def int_max_str_digits_def decimal_def ascii_def)
  ultimately show ?thesis
    by (simp add: MACRange_init_def map_char_of_ascii MAC_parse_example)
qed

lemma build_numeral:
  "build (numeral n) rnd k spoof_macs spoofs spoofed =
     (case IPNetworks_rand (rnd k) spoofs of
        Inl e \<Rightarrow> Inl e
      | Inr None \<Rightarrow> Inl ValueError
      | Inr (Some address) \<Rightarrow>
          (case addresses_exclude spoofs [ip_network_of address] of
             Inl e \<Rightarrow> Inl e
           | Inr spoofs1 \<Rightarrow>
               (case MACRanges_rand (rnd (k + 1)) spoof_macs of
                  Inl e \<Rightarrow> Inl e
                | Inr mac \<Rightarrow>
                    build (pred_numeral n) rnd (k + 2) spoof_macs spoofs1 (dict_set spoofed address mac))))"
  by (simp only: numeral_eq_Suc build.simps)

lemma exclude_targets_example:
  "addresses_exclude [\<lparr>version = V4, network_address = 167772160, prefixlen = 28\<rparr>]
     [\<lparr>version = V4, network_address = 167772160, prefixlen = 30\<rparr>]
   = Inr [\<lparr>version = V4, network_address = 167772160, prefixlen = 28\<rparr>]"
  by (simp add: network_eval)

lemma IPNetworks_len_example:
  "IPNetworks_len [\<lparr>version = V4, network_address = 167772160, prefixlen = 28\<rparr>] = 16"
  by (simp add: IPNetworks_len_def num_addresses_def broadcast_address_def hostmask_def)

text \<open>
  Claim C3 says that a fractional count is floored and the table built without error. On the
  code a count given on the command line is a float, and whenever it is not above the number
  of spoofable addresses \<^verbatim>\<open>min\<close> returns it and \<^verbatim>\<open>range\<close> raises TypeError:
  here \<^verbatim>\<open>--target 10.0.0.0/30 --spoof 10.0.0.0/28 --mac 02:00:00:00:00:00/40 --count 2\<close>,
  whatever the random source.
\<close>

theorem spoof_table_float_count:
  "spoof_table uni [\<lparr>version = V4, network_address = 167772160, prefixlen = 30\<rparr>]
     [\<lparr>version = V4, network_address = 167772160, prefixlen = 28\<rparr>]
     [ascii ''02:00:00:00:00:00/40''] (PyFloat 2) rnd = Inl TypeError"
  by (simp add: spoof_table_def exclude_targets_example MACRange_init_example IPNetworks_len_example
      py_min_def)

lemma round_example:
  "IPNetworks_rand 2 [\<lparr>version = V4, network_address = 167772160, prefixlen = 28\<rparr>]
     = Inr (Some (IPAddress V4 167772162))"
  "addresses_exclude [\<lparr>version = V4, network_address = 167772160, prefixlen = 28\<rparr>]
     [\<lparr>version = V4, network_address = 167772162, prefixlen = 32\<rparr>]
     = Inr [\<lparr>version = V4, network_address = 167772160, prefixlen = 28\<rparr>]"
  "MACRanges_rand 2 [\<lparr>range_mask = 40, range_mac = 0x020000000000\<rparr>] = Inr (Some 0x020000000002)"
  by (simp_all add: IPNetworks_rand_def IPNetworks_len_example randrange_def num_addresses_def
      broadcast_address_def hostmask_def address_add_def network_eval
      MACRanges_rand_def MACRanges_len_def MACRange_len_def)

text \<open>
  Claim C4 says that the table has as many entries as the effective count, with distinct
  keys, none of them covered by a target. On the code, with
  \<^verbatim>\<open>--target 10.0.0.0/30 --spoof 10.0.0.0/28 --mac 02:00:00:00:00:00/40\<close>, the default
  count of 10 and a random source that gives 2 at every call: no member of
  \<^verbatim>\<open>spoofs\<close> is a subnet of the target, so the \<^verbatim>\<open>while\<close> loop of
  \<^verbatim>\<open>addresses_exclude\<close> is never entered and the /28 stays whole; the address drawn,
  10.0.0.2, lies in the target; the /28 is no subnet of 10.0.0.2/32 either, so the address is
  not removed and is drawn in all ten rounds; the table has one entry.
\<close>

theorem spoof_table_repeats_target_address:
  "spoof_table uni [\<lparr>version = V4, network_address = 167772160, prefixlen = 30\<rparr>]
     [\<lparr>version = V4, network_address = 167772160, prefixlen = 28\<rparr>]
     [ascii ''02:00:00:00:00:00/40''] (PyInt 10) (\<lambda>k. 2)
   = Inr [(IPAddress V4 167772162, Some 0x020000000002)] \<and>
   contains \<lparr>version = V4, network_address = 167772160, prefixlen = 30\<rparr> (IPAddress V4 167772162)"
  by (simp add: spoof_table_def exclude_targets_example MACRange_init_example IPNetworks_len_example
      py_min_def build_numeral round_example contains_def broadcast_address_def hostmask_def)

text \<open>
  Claim C9 says that every octet is written as exactly two hexadecimal digits. On the code
  \<^verbatim>\<open>format(part, "x")\<close> does not pad: the MAC 02:00:00:00:00:00 is written with one
  digit in each group, a text that the expression of \<^verbatim>\<open>MACRange\<close> itself does not
  match.
\<close>

theorem MAC_str_unpadded: "MAC_str 0x020000000000 = Inr ''2:0:0:0:0:0''"
  by (simp add: MAC_str_def to_bytes_def bytes_big_numeral format_x.simps hex_digit_def)

lemma MACRange_init_rejects_MAC_str:
  "MACRange_init uni (ascii ''2:0:0:0:0:0/40'') = Inl AttributeError"
  by (simp add: MACRange_init_def MACRange_eval)

subsection \<open>Parsing the text of a MAC range\<close>

lemma pattern_shift:
  "(\<forall>i<3 * Suc n. Q i) \<longleftrightarrow> Q 0 \<and> Q 1 \<and> Q 2 \<and> (\<forall>i<3 * n. Q (i + 3))"
proof
  assume a: "\<forall>i<3 * Suc n. Q i"
  then show "Q 0 \<and> Q 1 \<and> Q 2 \<and> (\<forall>i<3 * n. Q (i + 3))" by simp
next
  assume b: "Q 0 \<and> Q 1 \<and> Q 2 \<and> (\<forall>i<3 * n. Q (i + 3))"
  show "\<forall>i<3 * Suc n. Q i"
  proof (intro allI impI)
    fix i assume "i < 3 * Suc n"
    then have "i = 0 \<or> i = 1 \<or> i = 2 \<or> (\<exists>j<3 * n. i = j + 3)" by presburger
    with b show "Q i" by auto
  qed
qed


lemma pairs_pattern_0: "pairs_pattern 0 p \<longleftrightarrow> p = []"
  by (simp add: pairs_pattern_def)

lemma pairs_pattern_Suc:
  "pairs_pattern (Suc n) p \<longleftrightarrow>
     (\<exists>a b c p'. p = a # b # c # p' \<and> cp_is_hex a \<and> cp_is_hex b \<and> cp_is_sep c \<and> pairs_pattern n p')"
proof
  assume pp: "pairs_pattern (Suc n) p"
  then have len: "length p = 3 + 3 * n" by (simp add: pairs_pattern_def)
  then obtain a b c p' where p: "p = a # b # c # p'"
    by (cases p; simp; cases "tl p"; simp; cases "tl (tl p)"; simp)
  have sh: "p ! (i + 3) = p' ! i" for i by (simp add: p numeral_3_eq_3)
  have first: "p ! 0 = a" "p ! 1 = b" "p ! 2 = c" by (simp_all add: p numeral_2_eq_2)
  from pp have "\<forall>i<3 * Suc n. if i mod 3 = 2 then cp_is_sep (p ! i) else cp_is_hex (p ! i)"
    by (simp add: pairs_pattern_def)
  then have "(if (0::nat) mod 3 = 2 then cp_is_sep (p ! 0) else cp_is_hex (p ! 0)) \<and>
      (if (1::nat) mod 3 = 2 then cp_is_sep (p ! 1) else cp_is_hex (p ! 1)) \<and>
      (if (2::nat) mod 3 = 2 then cp_is_sep (p ! 2) else cp_is_hex (p ! 2)) \<and>
      (\<forall>i<3 * n. if (i + 3) mod 3 = 2 then cp_is_sep (p ! (i + 3)) else cp_is_hex (p ! (i + 3)))"
    unfolding pattern_shift .
  then have "cp_is_hex a \<and> cp_is_hex b \<and> cp_is_sep c \<and>
      (\<forall>i<3 * n. if i mod 3 = 2 then cp_is_sep (p' ! i) else cp_is_hex (p' ! i))"
    unfolding sh first by simp
  with len p show "\<exists>a b c p'. p = a # b # c # p' \<and> cp_is_hex a \<and> cp_is_hex b \<and> cp_is_sep c \<and> pairs_pattern n p'"
    by (simp add: pairs_pattern_def)
next
  assume "\<exists>a b c p'. p = a # b # c # p' \<and> cp_is_hex a \<and> cp_is_hex b \<and> cp_is_sep c \<and> pairs_pattern n p'"
  then obtain a b c p' where p: "p = a # b # c # p'" and h: "cp_is_hex a" "cp_is_hex b" "cp_is_sep c"
    and pp: "pairs_pattern n p'" by blast
  have sh: "p ! (i + 3) = p' ! i" for i by (simp add: p numeral_3_eq_3)
  have first: "p ! 0 = a" "p ! 1 = b" "p ! 2 = c" by (simp_all add: p numeral_2_eq_2)
  from pp have "\<forall>i<3 * n. if i mod 3 = 2 then cp_is_sep (p' ! i) else cp_is_hex (p' ! i)"
    by (simp add: pairs_pattern_def)
  with h have "(if (0::nat) mod 3 = 2 then cp_is_sep (p ! 0) else cp_is_hex (p ! 0)) \<and>
      (if (1::nat) mod 3 = 2 then cp_is_sep (p ! 1) else cp_is_hex (p ! 1)) \<and>
      (if (2::nat) mod 3 = 2 then cp_is_sep (p ! 2) else cp_is_hex (p ! 2)) \<and>
      (\<forall>i<3 * n. if (i + 3) mod 3 = 2 then cp_is_sep (p ! (i + 3)) else cp_is_hex (p ! (i + 3)))"
    unfolding sh first by simp
  then have "\<forall>i<3 * Suc n. if i mod 3 = 2 then cp_is_sep (p ! i) else cp_is_hex (p ! i)"
    unfolding pattern_shift .
  moreover have "length p = 3 * Suc n" using pp p by (simp add: pairs_pattern_def)
  ultimately show "pairs_pattern (Suc n) p" unfolding pairs_pattern_def by blast
qed

lemma match_pairs_iff:
  "match_pairs n s = Some r \<longleftrightarrow> (\<exists>p. s = p @ r \<and> pairs_pattern n p)"
proof (induction n arbitrary: s)
  case 0
  show ?case by (auto simp: pairs_pattern_0)
next
  case (Suc n)
  show ?case
  proof
    assume m: "match_pairs (Suc n) s = Some r"
    then obtain a b c s' where s: "s = a # b # c # s'"
      and h: "cp_is_hex a" "cp_is_hex b" "cp_is_sep c" and m': "match_pairs n s' = Some r"
      by (auto elim!: match_pairs.elims split: if_splits)
    from m' Suc.IH obtain p' where "s' = p' @ r" "pairs_pattern n p'" by blast
    with s h have "s = (a # b # c # p') @ r \<and> pairs_pattern (Suc n) (a # b # c # p')"
      by (simp add: pairs_pattern_Suc)
    then show "\<exists>p. s = p @ r \<and> pairs_pattern (Suc n) p" by blast
  next
    assume "\<exists>p. s = p @ r \<and> pairs_pattern (Suc n) p"
    then obtain p where s: "s = p @ r" and pp: "pairs_pattern (Suc n) p" by blast
    from pp obtain a b c p' where p: "p = a # b # c # p'" and h: "cp_is_hex a" "cp_is_hex b" "cp_is_sep c"
      and pp': "pairs_pattern n p'" by (auto simp: pairs_pattern_Suc)
    from pp' Suc.IH [of "p' @ r"] have "match_pairs n (p' @ r) = Some r" by blast
    with s p h show "match_pairs (Suc n) s = Some r" by simp
  qed
qed

lemma mac_text_ok_iff:
  "mac_text_ok m \<longleftrightarrow> (\<exists>p a b. m = p @ [a, b] \<and> pairs_pattern 5 p \<and> cp_is_hex a \<and> cp_is_hex b)"
proof
  assume ok: "mac_text_ok m"
  then have len: "length m = 17"
    and pat: "\<And>i. i < 17 \<Longrightarrow> if i mod 3 = 2 then cp_is_sep (m ! i) else cp_is_hex (m ! i)"
    by (simp_all add: mac_text_ok_def)
  have d: "drop 15 m = [m ! 15, m ! 16]"
    using Cons_nth_drop_Suc [of 15 m] Cons_nth_drop_Suc [of 16 m] len by simp
  have m: "m = take 15 m @ [m ! 15, m ! 16]"
    using d append_take_drop_id [of 15 m] by simp
  have "pairs_pattern 5 (take 15 m)"
    using len pat by (simp add: pairs_pattern_def)
  moreover have "cp_is_hex (m ! 15)" "cp_is_hex (m ! 16)"
    using pat [of 15] pat [of 16] by simp_all
  ultimately show "\<exists>p a b. m = p @ [a, b] \<and> pairs_pattern 5 p \<and> cp_is_hex a \<and> cp_is_hex b"
    using m by blast
next
  assume "\<exists>p a b. m = p @ [a, b] \<and> pairs_pattern 5 p \<and> cp_is_hex a \<and> cp_is_hex b"
  then obtain p a b where m: "m = p @ [a, b]" and pp: "pairs_pattern 5 p"
    and h: "cp_is_hex a" "cp_is_hex b" by blast
  from pp have len: "length p = 15"
    and pat: "\<And>i. i < 15 \<Longrightarrow> if i mod 3 = 2 then cp_is_sep (p ! i) else cp_is_hex (p ! i)"
    by (simp_all add: pairs_pattern_def)
  have "if i mod 3 = 2 then cp_is_sep (m ! i) else cp_is_hex (m ! i)" if "i < 17" for i
  proof -
    from that consider "i < 15" | "i = 15" | "i = 16" by linarith
    then show ?thesis
    proof cases
      case 1
      with pat [of i] len show ?thesis by (simp add: m nth_append)
    next
      case 2
      with h len show ?thesis by (simp add: m nth_append)
    next
      case 3
      with h len show ?thesis by (simp add: m nth_append)
    qed
  qed
  moreover have "length m = 17" using len m by simp
  ultimately show "mac_text_ok m" unfolding mac_text_ok_def by blast
qed

lemma newline_not_digit: "\<not> is_digit uni 0x0A"
  by (simp add: is_digit_def decimal_def)

lemma takeWhile_digits:
  assumes "list_all (is_digit uni) ds" and "at_end nl"
  shows "takeWhile (is_digit uni) (ds @ nl) = ds" and "dropWhile (is_digit uni) (ds @ nl) = nl"
proof -
  from assms(1) have all: "\<And>x. x \<in> set ds \<Longrightarrow> is_digit uni x" by (simp add: list_all_iff)
  from assms(2) have "takeWhile (is_digit uni) nl = []" "dropWhile (is_digit uni) nl = nl"
    by (auto simp: at_end_def newline_not_digit)
  with all show "takeWhile (is_digit uni) (ds @ nl) = ds" "dropWhile (is_digit uni) (ds @ nl) = nl"
    by (simp_all add: takeWhile_append2 dropWhile_append2)
qed

lemma match_tail_mask_iff:
  "match_tail uni r = Some (Some ds) \<longleftrightarrow>
     (\<exists>nl. r = of_char CHR ''/'' # ds @ nl \<and> ds \<noteq> [] \<and> list_all (is_digit uni) ds \<and> at_end nl)"
proof
  assume m: "match_tail uni r = Some (Some ds)"
  then obtain c r' where r: "r = c # r'" by (cases r) (auto simp: match_tail_def)
  with m have c: "c = of_char CHR ''/''" and ds: "ds = takeWhile (is_digit uni) r'" "ds \<noteq> []"
    and e: "at_end (dropWhile (is_digit uni) r')"
    by (auto simp: match_tail_def split: if_splits)
  have "r' = ds @ dropWhile (is_digit uni) r'" by (simp add: ds(1))
  moreover have "list_all (is_digit uni) ds"
    unfolding ds(1) list_all_iff by (auto dest: set_takeWhileD)
  ultimately show "\<exists>nl. r = of_char CHR ''/'' # ds @ nl \<and> ds \<noteq> [] \<and>
      list_all (is_digit uni) ds \<and> at_end nl"
    using r c ds(2) e by blast
next
  assume "\<exists>nl. r = of_char CHR ''/'' # ds @ nl \<and> ds \<noteq> [] \<and> list_all (is_digit uni) ds \<and> at_end nl"
  then obtain nl where r: "r = of_char CHR ''/'' # ds @ nl" and ds: "ds \<noteq> []"
    "list_all (is_digit uni) ds" and nl: "at_end nl" by blast
  from takeWhile_digits [OF ds(2) nl] ds(1) nl show "match_tail uni r = Some (Some ds)"
    by (simp add: match_tail_def r)
qed

lemma match_tail_no_mask: "match_tail uni r = Some None \<longleftrightarrow> at_end r"
  by (cases r) (auto simp: match_tail_def at_end_def)

lemma re_search_Some:
  assumes "re_search uni s = Some (g, grp)"
  shows "\<exists>r. s = g @ r \<and> mac_text_ok g \<and> match_tail uni r = Some grp"
proof -
  from assms obtain a b r where mp: "match_pairs 5 s = Some (a # b # r)"
    and h: "cp_is_hex a" "cp_is_hex b" and mt: "match_tail uni r = Some grp" and g: "g = take 17 s"
    by (auto simp: re_search_def split: option.splits list.splits if_splits)
  from mp obtain p where s: "s = p @ a # b # r" and pp: "pairs_pattern 5 p"
    unfolding match_pairs_iff by blast
  from pp have "length p = 15" by (simp add: pairs_pattern_def)
  with s g have g': "g = p @ [a, b]" by simp
  with pp h have "mac_text_ok g" unfolding mac_text_ok_iff by blast
  with s g' mt show ?thesis by simp
qed

lemma re_search_ok:
  assumes "mac_text_ok m" and "match_tail uni r = Some grp"
  shows "re_search uni (m @ r) = Some (m, grp)"
proof -
  from assms(1) obtain p a b where m: "m = p @ [a, b]" and pp: "pairs_pattern 5 p"
    and h: "cp_is_hex a" "cp_is_hex b" unfolding mac_text_ok_iff by blast
  from pp have mp: "match_pairs 5 (p @ a # b # r) = Some (a # b # r)"
    unfolding match_pairs_iff by blast
  from pp have "length p = 15" by (simp add: pairs_pattern_def)
  then have "take 17 (m @ r) = m" by (simp add: m)
  with mp h assms(2) show ?thesis by (simp add: re_search_def m)
qed

lemma re_search_None:
  "re_search uni s = None \<longleftrightarrow> \<not> (\<exists>m r grp. s = m @ r \<and> mac_text_ok m \<and> match_tail uni r = Some grp)"
proof
  assume n: "re_search uni s = None"
  show "\<not> (\<exists>m r grp. s = m @ r \<and> mac_text_ok m \<and> match_tail uni r = Some grp)"
  proof
    assume "\<exists>m r grp. s = m @ r \<and> mac_text_ok m \<and> match_tail uni r = Some grp"
    then obtain m r grp where "s = m @ r" "mac_text_ok m" "match_tail uni r = Some grp" by blast
    with re_search_ok [of m uni r grp] n show False by simp
  qed
next
  assume n: "\<not> (\<exists>m r grp. s = m @ r \<and> mac_text_ok m \<and> match_tail uni r = Some grp)"
  show "re_search uni s = None"
  proof (cases "re_search uni s")
    case None
    then show ?thesis .
  next
    case (Some res)
    obtain g grp where "res = (g, grp)" by (cases res)
    with Some re_search_Some [of uni s g grp] n show ?thesis by blast
  qed
qed

lemma char_of_hex: "cp_is_hex c \<Longrightarrow> is_hex (char_of c)"
  by (auto simp: cp_is_hex_def is_hex_def)

lemma char_of_sep: "cp_is_sep c \<Longrightarrow> \<not> is_hex (char_of c)"
  by (auto simp: cp_is_sep_def is_hex_def)

lemma hex_val_less: "is_hex c \<Longrightarrow> hex_val c < 16"
  by (auto simp: is_hex_def hex_val_def Let_def)


lemma re_split_pairs:
  "pairs_pattern n p \<Longrightarrow>
     \<exists>gs. list_all hex_pair gs \<and> length gs = n \<and>
       (\<forall>rest. re_split_acc [] (map char_of p @ rest) = gs @ re_split_acc [] rest)"
proof (induction n arbitrary: p)
  case 0
  then have "p = []" by (simp add: pairs_pattern_0)
  then have "list_all hex_pair [] \<and> length ([] :: string list) = 0 \<and>
      (\<forall>rest. re_split_acc [] (map char_of p @ rest) = [] @ re_split_acc [] rest)"
    by simp
  then show ?case by blast
next
  case (Suc n)
  then obtain a b c p' where p: "p = a # b # c # p'" and h: "cp_is_hex a" "cp_is_hex b" "cp_is_sep c"
    and pp: "pairs_pattern n p'" by (auto simp: pairs_pattern_Suc)
  from Suc.IH [OF pp] obtain gs where gs: "list_all hex_pair gs" "length gs = n"
    and split: "\<And>rest. re_split_acc [] (map char_of p' @ rest) = gs @ re_split_acc [] rest" by blast
  note hc = char_of_hex [OF h(1)] char_of_hex [OF h(2)] char_of_sep [OF h(3)]
  have "hex_pair [char_of a, char_of b]" using hc by (simp add: hex_pair_def)
  with gs have "list_all hex_pair ([char_of a, char_of b] # gs)"
    "length ([char_of a, char_of b] # gs) = Suc n" by simp_all
  moreover have "re_split_acc [] (map char_of p @ rest)
      = ([char_of a, char_of b] # gs) @ re_split_acc [] rest" for rest
    using hc split [of rest] by (simp add: p)
  ultimately show ?case by blast
qed

lemma int16_hex_pair: "hex_pair g \<Longrightarrow> \<exists>v<256. int16 g = Inr v"
proof -
  assume "hex_pair g"
  then obtain a b where g: "g = [a, b]" and h: "is_hex a" "is_hex b" by (auto simp: hex_pair_def)
  from hex_val_less [OF h(1)] hex_val_less [OF h(2)] have "hex_val a * 16 + hex_val b < 256" by simp
  with h show ?thesis by (simp add: int16_def g)
qed

lemma collect_int16_pairs:
  "list_all hex_pair gs \<Longrightarrow>
     \<exists>vs. collect (map int16 gs) = Inr vs \<and> list_all (\<lambda>b. b < 256) vs \<and> length vs = length gs"
proof (induction gs)
  case Nil
  then show ?case by simp
next
  case (Cons g gs)
  then obtain vs where vs: "collect (map int16 gs) = Inr vs" "list_all (\<lambda>b. b < 256) vs"
    "length vs = length gs" by auto
  from Cons.prems int16_hex_pair [of g] obtain v where v: "v < 256" "int16 g = Inr v" by auto
  with vs show ?case by simp
qed

lemma bytes_value_bound:
  "list_all (\<lambda>b. b < 256) vs \<Longrightarrow> acc < 256 ^ j \<Longrightarrow>
     foldl (\<lambda>acc b. acc * 256 + b) acc vs < (256::nat) ^ (j + length vs)"
proof (induction vs arbitrary: acc j)
  case Nil
  then show ?case by simp
next
  case (Cons v vs)
  from Cons.prems have "v < 256" and "Suc acc \<le> 256 ^ j" by simp_all
  then have "Suc acc * 256 \<le> 256 ^ j * 256" by (intro mult_le_mono1)
  with \<open>v < 256\<close> have "acc * 256 + v < 256 ^ Suc j" by simp
  from Cons.IH [OF _ this] Cons.prems(1) show ?case by simp
qed

lemma MAC_parse_ok:
  assumes "mac_text_ok m"
  shows "\<exists>v. MAC_parse (map char_of m) = Inr v \<and> 0 \<le> v \<and> v < 2 ^ 48"
proof -
  from assms obtain p a b where m: "m = p @ [a, b]" and pp: "pairs_pattern 5 p"
    and h: "cp_is_hex a" "cp_is_hex b" unfolding mac_text_ok_iff by blast
  note hc = char_of_hex [OF h(1)] char_of_hex [OF h(2)]
  from re_split_pairs [OF pp] obtain gs where gs: "list_all hex_pair gs" "length gs = 5"
    and split: "re_split_acc [] (map char_of p @ [char_of a, char_of b])
      = gs @ re_split_acc [] [char_of a, char_of b]" by blast
  have "re_split_acc [] [char_of a, char_of b] = [[char_of a, char_of b]]" using hc by simp
  with split have rs: "re_split (map char_of m) = gs @ [[char_of a, char_of b]]"
    by (simp add: re_split_def m)
  have "hex_pair [char_of a, char_of b]" using hc by (simp add: hex_pair_def)
  with gs have "list_all hex_pair (gs @ [[char_of a, char_of b]])" by simp
  from collect_int16_pairs [OF this] gs(2) obtain vs where
    vs: "collect (map int16 (gs @ [[char_of a, char_of b]])) = Inr vs"
    "list_all (\<lambda>b. b < 256) vs" "length vs = 6"
    by auto
  from bytes_value_bound [OF vs(2), of 0 0] vs(3)
  have "foldl (\<lambda>acc b. acc * 256 + b) 0 vs < 256 ^ 6" by simp
  then have "int (foldl (\<lambda>acc b. acc * 256 + b) 0 vs) < 2 ^ 48" by simp
  with rs vs show ?thesis by (simp add: MAC_parse_def from_bytes_def)
qed

lemma py_int_Inr:
  "py_int uni ds = Inr v \<longleftrightarrow> length ds \<le> 4300 \<and> v = digits_value uni ds"
  by (auto simp: py_int_def int_max_str_digits_def digits_value_def)

text \<open>
  The constructor returns a range exactly on six groups of two hexadecimal digits with
  separators, then \<open>/\<close> and decimal digits for a prefix length of 0 to 48; a newline may
  follow.
\<close>

lemma MACRange_init_iff:
  "(\<exists>range. MACRange_init uni s = Inr range) \<longleftrightarrow>
     (\<exists>m p nl. s = m @ of_char CHR ''/'' # p @ nl \<and> mac_text_ok m \<and> prefix_ok uni p \<and> at_end nl)"
proof
  assume "\<exists>range. MACRange_init uni s = Inr range"
  then obtain range where i: "MACRange_init uni s = Inr range" ..
  then obtain g ds v where rs: "re_search uni s = Some (g, Some ds)"
    and v: "py_int uni ds = Inr v" and le: "v \<le> 48"
    by (auto simp: MACRange_init_def split: option.splits sum.splits if_splits)
  from re_search_Some [OF rs] obtain r where t: "s = g @ r" and ok: "mac_text_ok g"
    and mt: "match_tail uni r = Some (Some ds)" by blast
  from mt obtain nl where "r = of_char CHR ''/'' # ds @ nl" "ds \<noteq> []"
    "list_all (is_digit uni) ds" "at_end nl"
    unfolding match_tail_mask_iff by blast
  with t ok le v have "s = g @ of_char CHR ''/'' # ds @ nl \<and> mac_text_ok g \<and>
      prefix_ok uni ds \<and> at_end nl"
    by (simp add: prefix_ok_def py_int_Inr)
  then show "\<exists>m p nl. s = m @ of_char CHR ''/'' # p @ nl \<and> mac_text_ok m \<and>
      prefix_ok uni p \<and> at_end nl"
    by blast
next
  assume "\<exists>m p nl. s = m @ of_char CHR ''/'' # p @ nl \<and> mac_text_ok m \<and> prefix_ok uni p \<and> at_end nl"
  then obtain m p nl where t: "s = m @ of_char CHR ''/'' # p @ nl" and ok: "mac_text_ok m"
    and p: "prefix_ok uni p" and nl: "at_end nl" by blast
  from p nl have "match_tail uni (of_char CHR ''/'' # p @ nl) = Some (Some p)"
    unfolding match_tail_mask_iff by (auto simp: prefix_ok_def)
  from re_search_ok [OF ok this] t have rs: "re_search uni s = Some (m, Some p)" by simp
  from MAC_parse_ok [OF ok] obtain v where "MAC_parse (map char_of m) = Inr v" by blast
  moreover from p have "py_int uni p = Inr (digits_value uni p)" "digits_value uni p \<le> 48"
    by (simp_all add: prefix_ok_def py_int_Inr)
  ultimately show "\<exists>range. MACRange_init uni s = Inr range"
    using rs by (simp add: MACRange_init_def)
qed

text \<open>
  On every other text it raises: AttributeError when the expression does not match,
  TypeError when it matches without a mask, ValueError when the mask has more digits than
  \<^verbatim>\<open>int\<close> converts or denotes more than 48.
\<close>

lemma MACRange_init_no_match:
  "MACRange_init uni s = Inl AttributeError \<longleftrightarrow>
     \<not> (\<exists>m r grp. s = m @ r \<and> mac_text_ok m \<and> match_tail uni r = Some grp)"
proof -
  have "MACRange_init uni s = Inl AttributeError \<longleftrightarrow> re_search uni s = None"
  proof
    assume a: "MACRange_init uni s = Inl AttributeError"
    show "re_search uni s = None"
    proof (cases "re_search uni s")
      case None
      then show ?thesis .
    next
      case (Some res)
      obtain g grp where res: "res = (g, grp)" by (cases res)
      from re_search_Some [of uni s g grp] Some res have "mac_text_ok g" by blast
      from MAC_parse_ok [OF this] obtain v where "MAC_parse (map char_of g) = Inr v" by blast
      with a Some res show ?thesis
        by (auto simp: MACRange_init_def py_int_def split: option.splits if_splits)
    qed
  next
    assume "re_search uni s = None"
    then show "MACRange_init uni s = Inl AttributeError" by (simp add: MACRange_init_def)
  qed
  then show ?thesis by (simp add: re_search_None)
qed

lemma MACRange_init_no_mask:
  assumes "mac_text_ok m" and "at_end nl"
  shows "MACRange_init uni (m @ nl) = Inl TypeError"
proof -
  from assms(2) have "match_tail uni nl = Some None" by (simp add: match_tail_no_mask)
  from re_search_ok [OF assms(1) this] show ?thesis by (simp add: MACRange_init_def)
qed

lemma MACRange_init_bad_mask:
  assumes "mac_text_ok m" and "p \<noteq> []" and "list_all (is_digit uni) p" and "at_end nl"
    and "4300 < length p \<or> 48 < digits_value uni p"
  shows "MACRange_init uni (m @ of_char CHR ''/'' # p @ nl) = Inl ValueError"
proof -
  from assms(2-4) have "match_tail uni (of_char CHR ''/'' # p @ nl) = Some (Some p)"
    unfolding match_tail_mask_iff by blast
  from re_search_ok [OF assms(1) this]
  have rs: "re_search uni (m @ of_char CHR ''/'' # p @ nl) = Some (m, Some p)" .
  from MAC_parse_ok [OF assms(1)] obtain v where "MAC_parse (map char_of m) = Inr v" by blast
  with rs assms(5) show ?thesis
    by (auto simp: MACRange_init_def py_int_def int_max_str_digits_def digits_value_def)
qed

lemma collect_Inl:
  "\<exists>r\<in>set rs. \<forall>v. r \<noteq> Inr v \<Longrightarrow> \<exists>e. collect rs = Inl e"
proof (induction rs)
  case Nil
  then show ?case by simp
next
  case (Cons r rs)
  show ?case
  proof (cases r)
    case (Inl e)
    then show ?thesis by simp
  next
    case (Inr v)
    with Cons.prems have "\<exists>r\<in>set rs. \<forall>v. r \<noteq> Inr v" by auto
    from Cons.IH [OF this] Inr show ?thesis by auto
  qed
qed

text \<open>
  When the constructor raises on one of the texts of \<^verbatim>\<open>--mac\<close> the script ends with an
  exception and has sent no frame.
\<close>

lemma main_bad_mac:
  assumes "\<exists>t\<in>set mac_texts. \<forall>range. MACRange_init uni t \<noteq> Inr range"
  shows "\<exists>e. main uni targets spoof_arg mac_texts count_arg seconds rnd fuel = (Raised e, [])"
proof -
  from assms have "\<exists>r\<in>set (map (MACRange_init uni) mac_texts). \<forall>v. r \<noteq> Inr v" by auto
  from collect_Inl [OF this] obtain e where "collect (map (MACRange_init uni) mac_texts) = Inl e" ..
  then have "\<exists>e. spoof_table uni targets spoof_arg mac_texts count_arg rnd = Inl e"
    by (simp add: spoof_table_def split: sum.splits)
  then show ?thesis by (auto simp: main_def)
qed

text \<open>
  Claim C7 says that parsing fails on malformed groups and on a prefix length outside 0 to
  48, and succeeds on a well-formed text, which the specification gives as
  \<^verbatim>\<open>AA:BB:CC:DD:EE:FF[/prefixBits]\<close>. On the code, a MAC without the prefix is matched
  by the expression, whose mask group is optional, and the next line raises TypeError on
  \<^verbatim>\<open>int(None)\<close>: here \<^verbatim>\<open>--mac 02:00:00:00:00:00\<close>, whose text the expression
  matches with no mask group.
\<close>

theorem MACRange_init_missing_prefix:
  "re_search uni (ascii ''02:00:00:00:00:00'') = Some (ascii ''02:00:00:00:00:00'', None) \<and>
   MACRange_init uni (ascii ''02:00:00:00:00:00'') = Inl TypeError"
  by (simp add: MACRange_init_def MACRange_eval)

text \<open>
  The other two failures of the claim are there: malformed groups and a prefix length above
  48 make the constructor raise, and then no frame is sent.
\<close>

lemma MACRange_init_out_of_range:
  "MACRange_init uni (ascii ''02:00:00:00:00:00/49'') = Inl ValueError"
proof -
  have "re_search uni (ascii ''02:00:00:00:00:00/49'')
      = Some (ascii ''02:00:00:00:00:00'', Some (ascii ''49''))"
    by (simp add: MACRange_eval)
  moreover have "py_int uni (ascii ''49'') = Inr 49"
    by (simp add: py_int_def int_max_str_digits_def decimal_def ascii_def)
  ultimately show ?thesis
    by (simp add: MACRange_init_def map_char_of_ascii MAC_parse_example)
qed

lemma main_out_of_range:
  "\<exists>e. main uni [\<lparr>version = V4, network_address = 167772160, prefixlen = 30\<rparr>]
      [\<lparr>version = V4, network_address = 167772160, prefixlen = 28\<rparr>]
      [ascii ''02:00:00:00:00:00/40'', ascii ''02:00:00:00:00:00/49''] (PyInt 10) None rnd fuel
    = (Raised e, [])"
  by (rule main_bad_mac) (simp add: MACRange_init_out_of_range)

text \<open>
  A mask in digits beyond ASCII is read as \<^verbatim>\<open>\d\<close> and \<^verbatim>\<open>int\<close> read it: with the
  Arabic-Indic digits four and zero (U+0664, U+0660), where the database gives them these
  values, the range has the mask 40.
\<close>

lemma MACRange_init_unicode_mask:
  assumes "uni 0x664 = Some 4" and "uni 0x660 = Some 0"
  shows "MACRange_init uni (ascii ''00:00:00:00:01:ff/'' @ [0x664, 0x660])
     = Inr \<lparr>range_mask = 40, range_mac = 0x000000000100\<rparr>"
proof -
  have "re_search uni (ascii ''00:00:00:00:01:ff/'' @ [0x664, 0x660])
      = Some (ascii ''00:00:00:00:01:ff'', Some [0x664, 0x660])"
    using assms by (simp add: MACRange_eval)
  moreover have "py_int uni [0x664, 0x660] = Inr 40"
    using assms by (simp add: py_int_def int_max_str_digits_def decimal_def)
  moreover have "MAC_parse ''00:00:00:00:01:ff'' = Inr 0x0000000001ff"
    by (simp add: MAC_parse_def re_split_def is_hex_def int16_def hex_val_def from_bytes_def)
  ultimately show ?thesis
    by (simp add: MACRange_init_def map_char_of_ascii)
qed

subsection \<open>The MACs of the table are 48-bit values\<close>

text \<open>
  The constructor clears the low bits of a 48-bit value, so a range ends within 48 bits, and
  so does every MAC that \<^verbatim>\<open>rand\<close> draws from it.
\<close>

lemma and_not_low_bits: "(v::int) AND NOT (2 ^ k - 1) = v - v mod 2 ^ k"
proof -
  have "NOT v AND take_bit k v = 0"
    by (auto simp: bit_eq_iff bit_simps)
  then have "v - take_bit k v = v AND NOT (take_bit k v)"
    by (rule disjunctive_diff_eq_and_not)
  also have "\<dots> = v AND NOT (mask k)"
    by (auto simp: bit_eq_iff bit_simps)
  finally show ?thesis by (simp add: mask_eq_exp_minus_1 take_bit_eq_mod)
qed

lemma aligned_base:
  assumes "0 \<le> v" and "v < 2 ^ 48" and "k \<le> 48"
  shows "0 \<le> v - v mod 2 ^ k" and "v - v mod 2 ^ k + 2 ^ k \<le> (2::int) ^ 48"
proof -
  have pos: "(0::int) < 2 ^ k" by simp
  show "0 \<le> v - v mod 2 ^ k"
    using assms(1) pos by (simp add: zmod_le_nonneg_dividend)
  have base: "v - v mod 2 ^ k = 2 ^ k * (v div 2 ^ k)"
    by (simp add: minus_mod_eq_mult_div)
  have pw: "(2::int) ^ 48 = 2 ^ k * 2 ^ (48 - k)"
    using assms(3) by (simp flip: power_add)
  have "v div 2 ^ k < 2 ^ (48 - k)"
  proof (rule ccontr)
    assume "\<not> v div 2 ^ k < 2 ^ (48 - k)"
    then have "2 ^ (48 - k) \<le> v div 2 ^ k" by simp
    then have "2 ^ k * 2 ^ (48 - k) \<le> (2::int) ^ k * (v div 2 ^ k)"
      by (intro mult_left_mono) simp_all
    also have "\<dots> \<le> v" using base pos by (simp flip: base)
    finally show False using pw assms(2) by simp
  qed
  then have "v div 2 ^ k + 1 \<le> 2 ^ (48 - k)" by simp
  then have "2 ^ k * (v div 2 ^ k + 1) \<le> (2::int) ^ k * 2 ^ (48 - k)"
    by (intro mult_left_mono) simp_all
  then have "2 ^ k * (v div 2 ^ k) + 2 ^ k \<le> (2::int) ^ 48"
    unfolding pw by (simp add: distrib_left)
  then show "v - v mod 2 ^ k + 2 ^ k \<le> (2::int) ^ 48"
    unfolding base .
qed


lemma MACRange_init_range:
  assumes "MACRange_init uni s = Inr m"
  shows "range_in_48_bit m"
proof -
  from assms obtain g ds k v where rs: "re_search uni s = Some (g, Some ds)"
    and v: "MAC_parse (map char_of g) = Inr v" and le: "k \<le> 48"
    and m: "m = \<lparr>range_mask = k, range_mac = v AND NOT (push_bit (48 - k) 1 - 1)\<rparr>"
    by (auto simp: MACRange_init_def split: option.splits sum.splits if_splits)
  from re_search_Some [OF rs] have "mac_text_ok g" by blast
  from MAC_parse_ok [OF this] v have b: "0 \<le> v" "v < 2 ^ 48" by auto
  have k: "48 - k \<le> 48" by simp
  have "range_mac m = v - v mod 2 ^ (48 - k)"
    by (simp add: m and_not_low_bits)
  with aligned_base [OF b k] le show ?thesis
    by (simp add: range_in_48_bit_def m)
qed

lemma MACRanges_walk_48_bit:
  "\<forall>m\<in>set macs. range_in_48_bit m \<Longrightarrow> MACRanges_walk macs offset = Inr (Some v) \<Longrightarrow>
     0 \<le> v \<and> v < 2 ^ 48"
proof (induction macs arbitrary: offset)
  case Nil
  then show ?case by simp
next
  case (Cons m macs)
  from Cons.prems(1) have r: "range_in_48_bit m" by simp
  then have len: "MACRange_len m = Inr (2 ^ (48 - range_mask m))"
    by (simp add: MACRange_len_def range_in_48_bit_def)
  show ?case
  proof (cases "offset \<ge> 2 ^ (48 - range_mask m)")
    case True
    with Cons.prems len have "MACRanges_walk macs (offset - 2 ^ (48 - range_mask m)) = Inr (Some v)"
      by simp
    with Cons.IH Cons.prems(1) show ?thesis by simp
  next
    case False
    with Cons.prems len have v: "v = range_mac m + int offset" by simp
    from False have "int offset < 2 ^ (48 - range_mask m)"
      by (metis not_le of_nat_less_iff of_nat_numeral of_nat_power)
    with r v show ?thesis unfolding range_in_48_bit_def by linarith
  qed
qed

lemma collect_map_set:
  "collect (map f xs) = Inr ys \<Longrightarrow> \<forall>y\<in>set ys. \<exists>x\<in>set xs. f x = Inr y"
proof (induction xs arbitrary: ys)
  case Nil
  then show ?case by simp
next
  case (Cons x xs)
  then show ?case by (auto split: sum.splits)
qed

lemma set_dict_set: "set (dict_set d k v) \<subseteq> insert (k, v) (set d)"
proof (induction d)
  case Nil
  then show ?case by simp
next
  case (Cons e d)
  obtain a b where e: "e = (a, b)" by (cases e)
  show ?case
  proof (cases "a = k")
    case True
    then show ?thesis by (auto simp: e)
  next
    case False
    with Cons.IH show ?thesis by (auto simp: e)
  qed
qed

lemma all_48_bit_dict_set:
  "all_48_bit spoofed \<Longrightarrow> (\<forall>v. mac = Some v \<longrightarrow> 0 \<le> v \<and> v < 2 ^ 48) \<Longrightarrow>
     all_48_bit (dict_set spoofed address mac)"
  using set_dict_set [of spoofed address mac] unfolding all_48_bit_def by fastforce

lemma build_48_bit:
  "build n rnd k spoof_macs spoofs spoofed = Inr (spoofs', spoofed') \<Longrightarrow>
     \<forall>m\<in>set spoof_macs. range_in_48_bit m \<Longrightarrow> all_48_bit spoofed \<Longrightarrow> all_48_bit spoofed'"
proof (induction n arbitrary: k spoofs spoofed)
  case 0
  then show ?case by simp
next
  case (Suc n)
  from Suc.prems(1) obtain address spoofs1 mac where
    m: "MACRanges_rand (rnd (k + 1)) spoof_macs = Inr mac"
    and rest: "build n rnd (k + 2) spoof_macs spoofs1 (dict_set spoofed address mac)
      = Inr (spoofs', spoofed')"
    by (auto split: sum.splits option.splits)
  from m obtain offset where "MACRanges_walk spoof_macs offset = Inr mac"
    by (auto simp: MACRanges_rand_def split: sum.splits)
  with MACRanges_walk_48_bit [OF Suc.prems(2)] have "\<forall>v. mac = Some v \<longrightarrow> 0 \<le> v \<and> v < 2 ^ 48"
    by blast
  from all_48_bit_dict_set [OF Suc.prems(3) this] have "all_48_bit (dict_set spoofed address mac)" .
  from Suc.IH [OF rest Suc.prems(2) this] show ?case .
qed

lemma spoof_table_48_bit:
  assumes "spoof_table uni targets spoof_arg mac_texts count_arg rnd = Inr spoofed"
  shows "all_48_bit spoofed"
proof -
  from assms obtain spoofs spoof_macs n spoofs1 where
    macs: "collect (map (MACRange_init uni) mac_texts) = Inr spoof_macs"
    and b: "build n rnd 0 spoof_macs spoofs [] = Inr (spoofs1, spoofed)"
    by (auto simp: spoof_table_def split: sum.splits prod.splits)
  from collect_map_set [OF macs] have "\<forall>m\<in>set spoof_macs. range_in_48_bit m"
    by (auto dest: MACRange_init_range)
  from build_48_bit [OF b this] show ?thesis by (simp add: all_48_bit_def)
qed

text \<open>
  So the hypothesis on the table in the theorem on a pass holds for the table the script
  builds: a pass over it hands over all its frames.
\<close>

lemma spoof_table_pass:
  assumes "spoof_table uni targets spoof_arg mac_texts count_arg rnd = Inr spoofed"
  shows "spoof_pass spoofed targets w = (None, w @ pass_calls spoofed targets)"
  using spoof_pass_calls [OF spoof_table_48_bit [OF assms]] .


end
